theory Spec2Isabelle
  imports Complex_Main "HOL-Library.Word" "HOL-Library.Monad_Syntax"
begin

section \<open>Block CSR matrix of include/sparse/sparse_matrix.h\<close>

text \<open>
  The class template \<open>BSRMat<T, M, N>\<close> is embedded as a record; its methods are functions
  that take the matrix and return the new matrix or the value computed. The template
  parameters \<open>M\<close> and \<open>N\<close> are passed as the first two arguments of every method.
  A computation whose C++ behaviour is undefined (a read or a write outside an array,
  a division by zero) returns \<open>None\<close>.
\<close>

subsection \<open>Indices\<close>

text \<open>
  \<open>index_t\<close> and \<open>MAX_INDEX\<close> are declared in \<open>a2dobjs.h\<close>, which is not among the sources.
  The index type is taken as a parameter: an unsigned machine integer of some width
  \<open>'w\<close>, whose arithmetic wraps around. This is the arithmetic of C++ for an unsigned type
  that is at least as wide as \<open>int\<close> (a narrower type is promoted to \<open>int\<close> first); the
  examples take 32 bits.
\<close>

type_synonym 'w index_t = "'w word"

text \<open>
  Modelled from the spec: \<open>MAX_INDEX\<close>, declared in \<open>a2dobjs.h\<close>, is the reserved
  "not found" value returned by the lookup; it is taken to be the largest value of
  \<open>index_t\<close>, as its name says.
\<close>

definition MAX_INDEX :: "'w::len index_t" where
  "MAX_INDEX = - 1"

subsection \<open>Arrays\<close>

text \<open>A one-dimensional array is a list; \<open>xs[i]\<close> outside the array is undefined behaviour.\<close>

definition idx_get :: "'b list \<Rightarrow> 'w::len index_t \<Rightarrow> 'b option" where
  "idx_get xs i = (if unat i < length xs then Some (xs ! unat i) else None)"

definition idx_set :: "'b list \<Rightarrow> 'w::len index_t \<Rightarrow> 'b \<Rightarrow> 'b list option" where
  "idx_set xs i v = (if unat i < length xs then Some (xs[unat i := v]) else None)"

text \<open>
  \<open>MultiArrayNew<T *[M][N]>\<close>: a three-dimensional array whose first extent is chosen
  when it is allocated and whose other two extents are \<open>M\<close> and \<open>N\<close>. Its cells are
  addressed by index triples; an access checks the triple against the extents.
\<close>

record 'a vals_t =
  extent0 :: nat
  cell :: "nat \<Rightarrow> nat \<Rightarrow> nat \<Rightarrow> 'a"

definition vals_in :: "'w::len index_t \<Rightarrow> 'w index_t \<Rightarrow> 'a vals_t \<Rightarrow>
    'w index_t \<Rightarrow> 'w index_t \<Rightarrow> 'w index_t \<Rightarrow> bool" where
  "vals_in M N v p i j \<longleftrightarrow> unat p < extent0 v \<and> i < M \<and> j < N"

definition vals_read :: "'w::len index_t \<Rightarrow> 'w index_t \<Rightarrow> 'a vals_t \<Rightarrow>
    'w index_t \<Rightarrow> 'w index_t \<Rightarrow> 'w index_t \<Rightarrow> 'a option" where
  "vals_read M N v p i j =
     (if vals_in M N v p i j then Some (cell v (unat p) (unat i) (unat j)) else None)"

definition vals_write :: "'w::len index_t \<Rightarrow> 'w index_t \<Rightarrow> 'a vals_t \<Rightarrow>
    'w index_t \<Rightarrow> 'w index_t \<Rightarrow> 'w index_t \<Rightarrow> 'a \<Rightarrow> 'a vals_t option" where
  "vals_write M N v p i j x =
     (if vals_in M N v p i j
      then Some (v\<lparr>cell := \<lambda>p' i' j'.
                    if p' = unat p \<and> i' = unat i \<and> j' = unat j then x else cell v p' i' j'\<rparr>)
      else None)"

text \<open>Division and remainder of indices; a zero divisor is undefined behaviour.\<close>

definition idx_div :: "'w::len index_t \<Rightarrow> 'w index_t \<Rightarrow> 'w index_t option" where
  "idx_div a b = (if b = 0 then None else Some (a div b))"

definition idx_mod :: "'w::len index_t \<Rightarrow> 'w index_t \<Rightarrow> 'w index_t option" where
  "idx_mod a b = (if b = 0 then None else Some (a mod b))"

subsection \<open>Counting loops\<close>

text \<open>
  \<open>for (index_t i = a; i < n; i++) body\<close>, where \<open>n\<close> does not change in the loop:
  the body receives the counter and the state, and a body that fails ends the loop.
\<close>

function for_loop :: "'w::len index_t \<Rightarrow> 'w index_t \<Rightarrow> ('w index_t \<Rightarrow> 's \<Rightarrow> 's option) \<Rightarrow>
    's \<Rightarrow> 's option" where
  "for_loop i n body s =
     (if i < n
      then (case body i s of None \<Rightarrow> None | Some s' \<Rightarrow> for_loop (i + 1) n body s')
      else Some s)"
  by pat_completeness auto
termination
proof (relation "measure (\<lambda>(i, n, body, s). unat n - unat i)")
  show "wf (measure (\<lambda>(i :: 'w::len word, n :: 'w word, body :: 'w word \<Rightarrow> 's \<Rightarrow> 's option, s :: 's).
      unat n - unat i))"
    by simp
next
  fix i n :: "'w::len word" and body :: "'w word \<Rightarrow> 's \<Rightarrow> 's option" and s x2 :: 's
  assume "i < n"
  then have "unat (i + 1) = unat i + 1" and "unat i < unat n"
    by unat_arith+
  then show "((i + 1, n, body, x2), (i, n, body, s))
      \<in> measure (\<lambda>(i, n, body, s). unat n - unat i)"
    by simp
qed

declare for_loop.simps [simp del]

subsection \<open>The matrix\<close>

record (overloaded) ('w, 'a) BSRMat =
  nbrows :: "'w index_t"
  nbcols :: "'w index_t"
  nnz :: "'w index_t"
  rowp :: "'w index_t list"
  cols :: "'w index_t list"
  diag :: "'w index_t list"
  perm :: "'w index_t list"
  iperm :: "'w index_t list"
  num_colors :: "'w index_t"
  color_count :: "'w index_t list"
  vals :: "'a vals_t"

text \<open>
  The constructor. Newly allocated memory holds whatever the allocator left there:
  \<open>fresh_idx\<close> and \<open>fresh_val\<close> give the contents of new index and value arrays, and
  \<open>fresh_idx 0\<close> the value of the member \<open>num_colors\<close>, which the constructor does not
  set. The other arrays are default-constructed, hence empty.
\<close>

definition BSRMat_new :: "(nat \<Rightarrow> 'w index_t) \<Rightarrow> (nat \<Rightarrow> nat \<Rightarrow> nat \<Rightarrow> 'a) \<Rightarrow>
    'w::len index_t \<Rightarrow> 'w index_t \<Rightarrow> 'w index_t \<Rightarrow> 'w index_t list \<Rightarrow> 'w index_t list \<Rightarrow>
    ('w, 'a) BSRMat option" where
  "BSRMat_new fresh_idx fresh_val nbrows' nbcols' nnz' rowp_in cols_in = do {
     let A0 = \<lparr>nbrows = nbrows', nbcols = nbcols', nnz = nnz',
               rowp = map fresh_idx [0 ..< unat (nbrows' + 1)],
               cols = map fresh_idx [0 ..< unat nnz'],
               diag = [], perm = [], iperm = [],
               num_colors = fresh_idx 0, color_count = [],
               vals = \<lparr>extent0 = unat nnz', cell = fresh_val\<rparr>\<rparr>;
     A1 \<leftarrow> for_loop 0 (nbrows' + 1) (\<lambda>i A. do {
             x \<leftarrow> idx_get rowp_in i;
             r \<leftarrow> idx_set (rowp A) i x;
             Some (A\<lparr>rowp := r\<rparr>) }) A0;
     for_loop 0 nnz' (\<lambda>i A. do {
             x \<leftarrow> idx_get cols_in i;
             c \<leftarrow> idx_set (cols A) i x;
             Some (A\<lparr>cols := c\<rparr>) }) A1 }"

text \<open>
  Modelled from the spec: \<open>A2D::BLAS::zero\<close>, which \<open>zero()\<close> calls on \<open>vals\<close>, is not among
  the sources; it overwrites every scalar of the array with the additive identity.
\<close>

definition BLAS_zero :: "'a::zero vals_t \<Rightarrow> 'a vals_t" where
  "BLAS_zero v = v\<lparr>cell := \<lambda>p i j. 0\<rparr>"

definition zero :: "('w::len, 'a::zero) BSRMat \<Rightarrow> ('w, 'a) BSRMat" where
  "zero A = A\<lparr>vals := BLAS_zero (vals A)\<rparr>"

text \<open>The scan of \<open>find_column_index\<close>, which leaves the loop at the first match.\<close>

function find_column_scan :: "'w::len index_t list \<Rightarrow> 'w index_t \<Rightarrow> 'w index_t \<Rightarrow> 'w index_t \<Rightarrow>
    'w index_t option" where
  "find_column_scan cs col jp jp_end =
     (if jp < jp_end
      then (case idx_get cs jp of
              None \<Rightarrow> None
            | Some c \<Rightarrow> if c = col then Some jp else find_column_scan cs col (jp + 1) jp_end)
      else Some MAX_INDEX)"
  by pat_completeness auto
termination
proof (relation "measure (\<lambda>(cs, col, jp, jp_end). unat jp_end - unat jp)")
  show "wf (measure (\<lambda>(cs :: 'w::len word list, col :: 'w word, jp :: 'w word, jp_end :: 'w word).
      unat jp_end - unat jp))"
    by simp
next
  fix cs :: "'w::len word list" and col jp jp_end x2 :: "'w word"
  assume "jp < jp_end"
  then have "unat (jp + 1) = unat jp + 1" and "unat jp < unat jp_end"
    by unat_arith+
  then show "((cs, col, jp + 1, jp_end), (cs, col, jp, jp_end))
      \<in> measure (\<lambda>(cs, col, jp, jp_end). unat jp_end - unat jp)"
    by simp
qed

declare find_column_scan.simps [simp del]

definition find_column_index :: "('w::len, 'a) BSRMat \<Rightarrow> 'w index_t \<Rightarrow> 'w index_t \<Rightarrow>
    'w index_t option" where
  "find_column_index A row col = do {
     jp_start \<leftarrow> idx_get (rowp A) row;
     jp_end \<leftarrow> idx_get (rowp A) (row + 1);
     find_column_scan (cols A) col jp_start jp_end }"

text \<open>
  \<open>add_values\<close>: the body of the inner loop (one pair \<open>(ii, jj)\<close>), the body of the outer
  loop (one row DOF \<open>i[ii]\<close>) and the method. The arrays \<open>i\<close> and \<open>j\<close> are lists; \<open>mat\<close> is
  any object with \<open>operator()(ii, jj)\<close>, a function of the two indices.
\<close>

definition add_values_col :: "'w::len index_t \<Rightarrow> 'w index_t \<Rightarrow> 'w index_t list \<Rightarrow>
    ('w index_t \<Rightarrow> 'w index_t \<Rightarrow> 'a::plus) \<Rightarrow> 'w index_t \<Rightarrow> 'w index_t \<Rightarrow> 'w index_t \<Rightarrow>
    'w index_t \<Rightarrow> ('w, 'a) BSRMat \<Rightarrow> ('w, 'a) BSRMat option" where
  "add_values_col M N j mat ii block_row eq_row jj A = do {
     dj \<leftarrow> idx_get j jj;
     block_col \<leftarrow> idx_div dj N;
     eq_col \<leftarrow> idx_mod dj N;
     jp \<leftarrow> find_column_index A block_row block_col;
     if jp \<noteq> MAX_INDEX
     then do {
       x \<leftarrow> vals_read M N (vals A) jp eq_row eq_col;
       v \<leftarrow> vals_write M N (vals A) jp eq_row eq_col (x + mat ii jj);
       Some (A\<lparr>vals := v\<rparr>) }
     else Some A }"

definition add_values_row :: "'w::len index_t \<Rightarrow> 'w index_t \<Rightarrow> 'w index_t list \<Rightarrow>
    'w index_t \<Rightarrow> 'w index_t list \<Rightarrow> ('w index_t \<Rightarrow> 'w index_t \<Rightarrow> 'a::plus) \<Rightarrow>
    'w index_t \<Rightarrow> ('w, 'a) BSRMat \<Rightarrow> ('w, 'a) BSRMat option" where
  "add_values_row M N i n j mat ii A = do {
     di \<leftarrow> idx_get i ii;
     block_row \<leftarrow> idx_div di M;
     eq_row \<leftarrow> idx_mod di M;
     for_loop 0 n (add_values_col M N j mat ii block_row eq_row) A }"

definition add_values :: "'w::len index_t \<Rightarrow> 'w index_t \<Rightarrow> 'w index_t \<Rightarrow> 'w index_t list \<Rightarrow>
    'w index_t \<Rightarrow> 'w index_t list \<Rightarrow> ('w index_t \<Rightarrow> 'w index_t \<Rightarrow> 'a::plus) \<Rightarrow>
    ('w, 'a) BSRMat \<Rightarrow> ('w, 'a) BSRMat option" where
  "add_values M N m i n j mat A = for_loop 0 m (add_values_row M N i n j mat) A"

text \<open>
  \<open>zero_rows\<close>: the loop over \<open>k\<close>, the body of the loop over the blocks \<open>jp\<close> of the block
  row, the body of the loop over the DOFs, and the method. The bound \<open>rowp[block_row + 1]\<close>
  of the loop over \<open>jp\<close> is read once, \<open>rowp\<close> being left alone by the loop.
\<close>

definition zero_rows_k :: "'w::len index_t \<Rightarrow> 'w index_t \<Rightarrow> 'w index_t \<Rightarrow> 'w index_t \<Rightarrow>
    'w index_t \<Rightarrow> ('w, 'a::{zero,one}) BSRMat \<Rightarrow> ('w, 'a) BSRMat option" where
  "zero_rows_k M N jp eq_row k A = do {
     v \<leftarrow> vals_write M N (vals A) jp eq_row k 0;
     Some (A\<lparr>vals := v\<rparr>) }"

definition zero_rows_block :: "'w::len index_t \<Rightarrow> 'w index_t \<Rightarrow> 'w index_t \<Rightarrow> 'w index_t \<Rightarrow>
    'w index_t \<Rightarrow> ('w, 'a::{zero,one}) BSRMat \<Rightarrow> ('w, 'a) BSRMat option" where
  "zero_rows_block M N block_row eq_row jp A = do {
     A1 \<leftarrow> for_loop 0 N (zero_rows_k M N jp eq_row) A;
     c \<leftarrow> idx_get (cols A1) jp;
     if c = block_row
     then do {
       v \<leftarrow> vals_write M N (vals A1) jp eq_row eq_row 1;
       Some (A1\<lparr>vals := v\<rparr>) }
     else Some A1 }"

definition zero_rows_dof :: "'w::len index_t \<Rightarrow> 'w index_t \<Rightarrow> 'w index_t list \<Rightarrow>
    'w index_t \<Rightarrow> ('w, 'a::{zero,one}) BSRMat \<Rightarrow> ('w, 'a) BSRMat option" where
  "zero_rows_dof M N dof ii A = do {
     d \<leftarrow> idx_get dof ii;
     block_row \<leftarrow> idx_div d M;
     eq_row \<leftarrow> idx_mod d M;
     jp_start \<leftarrow> idx_get (rowp A) block_row;
     jp_end \<leftarrow> idx_get (rowp A) (block_row + 1);
     for_loop jp_start jp_end (zero_rows_block M N block_row eq_row) A }"

definition zero_rows :: "'w::len index_t \<Rightarrow> 'w index_t \<Rightarrow> 'w index_t \<Rightarrow> 'w index_t list \<Rightarrow>
    ('w, 'a::{zero,one}) BSRMat \<Rightarrow> ('w, 'a) BSRMat option" where
  "zero_rows M N nbcs dof A = for_loop 0 nbcs (zero_rows_dof M N dof) A"

text \<open>
  \<open>to_dense\<close>: the four nested loops, innermost first, and the method, which returns
  \<open>(m, n, A)\<close>. The buffer \<open>A\<close> is a list of \<open>size\<close> scalars.
\<close>

definition to_dense_jj :: "'w::len index_t \<Rightarrow> 'w index_t \<Rightarrow> ('w, 'a) BSRMat \<Rightarrow> 'w index_t \<Rightarrow>
    'w index_t \<Rightarrow> 'w index_t \<Rightarrow> 'w index_t \<Rightarrow> 'w index_t \<Rightarrow> 'w index_t \<Rightarrow>
    'a list \<Rightarrow> 'a list option" where
  "to_dense_jj M N A n jp j ii irow jj buf = do {
     let jcol = N * j + jj;
     x \<leftarrow> vals_read M N (vals A) jp ii jj;
     idx_set buf (n * irow + jcol) x }"

definition to_dense_ii :: "'w::len index_t \<Rightarrow> 'w index_t \<Rightarrow> ('w, 'a) BSRMat \<Rightarrow> 'w index_t \<Rightarrow>
    'w index_t \<Rightarrow> 'w index_t \<Rightarrow> 'w index_t \<Rightarrow> 'w index_t \<Rightarrow> 'a list \<Rightarrow> 'a list option" where
  "to_dense_ii M N A n i jp j ii buf =
     (let irow = M * i + ii in for_loop 0 N (to_dense_jj M N A n jp j ii irow) buf)"

definition to_dense_jp :: "'w::len index_t \<Rightarrow> 'w index_t \<Rightarrow> ('w, 'a) BSRMat \<Rightarrow> 'w index_t \<Rightarrow>
    'w index_t \<Rightarrow> 'w index_t \<Rightarrow> 'a list \<Rightarrow> 'a list option" where
  "to_dense_jp M N A n i jp buf = do {
     j \<leftarrow> idx_get (cols A) jp;
     for_loop 0 M (to_dense_ii M N A n i jp j) buf }"

definition to_dense_i :: "'w::len index_t \<Rightarrow> 'w index_t \<Rightarrow> ('w, 'a) BSRMat \<Rightarrow> 'w index_t \<Rightarrow>
    'w index_t \<Rightarrow> 'a list \<Rightarrow> 'a list option" where
  "to_dense_i M N A n i buf = do {
     jp_start \<leftarrow> idx_get (rowp A) i;
     jp_end \<leftarrow> idx_get (rowp A) (i + 1);
     for_loop jp_start jp_end (to_dense_jp M N A n i) buf }"

definition to_dense :: "'w::len index_t \<Rightarrow> 'w index_t \<Rightarrow> ('w, 'a::zero) BSRMat \<Rightarrow>
    ('w index_t \<times> 'w index_t \<times> 'a list) option" where
  "to_dense M N A =
     (let m = M * nbrows A; n = N * nbcols A; size = m * n in do {
        buf \<leftarrow> for_loop 0 (nbrows A) (to_dense_i M N A n) (replicate (unat size) 0);
        Some (m, n, buf) })"

text \<open>
  \<open>write_mtx\<close>. The file is the list of its lines, each line holding what \<open>fprintf\<close> prints
  for its arguments. The indices are printed with \<open>%d\<close>, which reads its argument as an
  \<open>int\<close>: \<open>print_d\<close> gives the number printed, \<open>int\<close> being taken to have 32 bits in two's
  complement. The values are printed with \<open>%30.20e\<close> and kept as they are.
\<close>

definition print_d :: "'w::len index_t \<Rightarrow> int" where
  "print_d x = sint (ucast x :: 32 word)"

datatype 'a mtx_line =
    Header string
  | Size_line int int int
  | Entry_line int int 'a

text \<open>
  \<open>std::fopen(name, "w")\<close> returns a stream on an empty file, or a null pointer when the
  file cannot be opened; \<open>opened\<close> says which. The source does not check the result, and
  \<open>fprintf\<close> on a null pointer is undefined behaviour. The name of the file plays no
  part.
\<close>

definition fopen_w :: "bool \<Rightarrow> 'a mtx_line list option" where
  "fopen_w opened = (if opened then Some [] else None)"

text \<open>The four nested loops of \<open>write_mtx\<close>, innermost first, and the method.\<close>

definition write_mtx_jj :: "'w::len index_t \<Rightarrow> 'w index_t \<Rightarrow> ('w, 'a) BSRMat \<Rightarrow>
    'w index_t \<Rightarrow> 'w index_t \<Rightarrow> 'w index_t \<Rightarrow> 'w index_t \<Rightarrow> 'w index_t \<Rightarrow>
    'a mtx_line list \<Rightarrow> 'a mtx_line list option" where
  "write_mtx_jj M N A jp j ii irow jj fp = do {
     let jcol = N * j + jj + 1;
     x \<leftarrow> vals_read M N (vals A) jp ii jj;
     Some (fp @ [Entry_line (print_d irow) (print_d jcol) x]) }"

definition write_mtx_ii :: "'w::len index_t \<Rightarrow> 'w index_t \<Rightarrow> ('w, 'a) BSRMat \<Rightarrow>
    'w index_t \<Rightarrow> 'w index_t \<Rightarrow> 'w index_t \<Rightarrow> 'w index_t \<Rightarrow>
    'a mtx_line list \<Rightarrow> 'a mtx_line list option" where
  "write_mtx_ii M N A i jp j ii fp =
     (let irow = M * i + ii + 1 in for_loop 0 N (write_mtx_jj M N A jp j ii irow) fp)"

definition write_mtx_jp :: "'w::len index_t \<Rightarrow> 'w index_t \<Rightarrow> ('w, 'a) BSRMat \<Rightarrow>
    'w index_t \<Rightarrow> 'w index_t \<Rightarrow> 'a mtx_line list \<Rightarrow> 'a mtx_line list option" where
  "write_mtx_jp M N A i jp fp = do {
     j \<leftarrow> idx_get (cols A) jp;
     for_loop 0 M (write_mtx_ii M N A i jp j) fp }"

definition write_mtx_i :: "'w::len index_t \<Rightarrow> 'w index_t \<Rightarrow> ('w, 'a) BSRMat \<Rightarrow> 'w index_t \<Rightarrow>
    'a mtx_line list \<Rightarrow> 'a mtx_line list option" where
  "write_mtx_i M N A i fp = do {
     jp_start \<leftarrow> idx_get (rowp A) i;
     jp_end \<leftarrow> idx_get (rowp A) (i + 1);
     for_loop jp_start jp_end (write_mtx_jp M N A i) fp }"

definition write_mtx :: "'w::len index_t \<Rightarrow> 'w index_t \<Rightarrow> bool \<Rightarrow> ('w, 'a) BSRMat \<Rightarrow>
    'a mtx_line list option" where
  "write_mtx M N opened A = do {
     fp \<leftarrow> fopen_w opened;
     let fp = fp @ [Header ''%%MatrixMarket matrix coordinate real general''];
     let fp = fp @ [Size_line (print_d (nbrows A * M)) (print_d (nbcols A * N))
                      (print_d (nnz A * M * N))];
     for_loop 0 (nbrows A) (write_mtx_i M N A) fp }"

subsection \<open>Method calls on the object\<close>

text \<open>
  A call of a method on a matrix gives the matrix after the call and what the call
  returned. \<open>find_column_index\<close>, \<open>to_dense\<close> and \<open>write_mtx\<close> assign to no member. A call
  of \<open>write_mtx\<close> comes with the outcome of opening the file.
\<close>

datatype ('i, 'a) operation =
    Call_zero
  | Call_find_column_index 'i 'i
  | Call_add_values 'i "'i list" 'i "'i list" "'i \<Rightarrow> 'i \<Rightarrow> 'a"
  | Call_zero_rows 'i "'i list"
  | Call_to_dense
  | Call_write_mtx bool

datatype ('i, 'a) outcome =
    Returned
  | Returned_index 'i
  | Returned_dense 'i 'i "'a list"
  | Written "'a mtx_line list"

fun call :: "'w::len index_t \<Rightarrow> 'w index_t \<Rightarrow> ('w index_t, 'a::{zero,one,plus}) operation \<Rightarrow>
    ('w, 'a) BSRMat \<Rightarrow> (('w, 'a) BSRMat \<times> ('w index_t, 'a) outcome) option" where
  "call M N Call_zero A = Some (zero A, Returned)"
| "call M N (Call_find_column_index row col) A =
     map_option (\<lambda>jp. (A, Returned_index jp)) (find_column_index A row col)"
| "call M N (Call_add_values m i n j mat) A =
     map_option (\<lambda>A'. (A', Returned)) (add_values M N m i n j mat A)"
| "call M N (Call_zero_rows nbcs dof) A =
     map_option (\<lambda>A'. (A', Returned)) (zero_rows M N nbcs dof A)"
| "call M N Call_to_dense A =
     map_option (\<lambda>(m, n, buf). (A, Returned_dense m n buf)) (to_dense M N A)"
| "call M N (Call_write_mtx opened) A =
     map_option (\<lambda>fp. (A, Written fp)) (write_mtx M N opened A)"

subsection \<open>Well-formed matrices and inputs\<close>

text \<open>
  The CSR invariants of the pattern: \<open>rowp\<close> has \<open>nbrows + 1\<close> entries, starts at 0, ends at
  \<open>nnz\<close> and does not decrease; \<open>cols\<close> has \<open>nnz\<close> entries, each a block column of the
  matrix; \<open>vals\<close> has one block for each entry of \<open>cols\<close>.
\<close>

definition valid_csr :: "('w::len, 'a) BSRMat \<Rightarrow> bool" where
  "valid_csr A \<longleftrightarrow>
     length (rowp A) = unat (nbrows A) + 1 \<and>
     length (cols A) = unat (nnz A) \<and>
     extent0 (vals A) = unat (nnz A) \<and>
     rowp A ! 0 = 0 \<and>
     rowp A ! unat (nbrows A) = nnz A \<and>
     (\<forall>r < unat (nbrows A). rowp A ! r \<le> rowp A ! Suc r) \<and>
     (\<forall>p < unat (nnz A). cols A ! p < nbcols A)"

text \<open>No block row of the pattern lists a block column twice.\<close>

definition duplicate_free :: "('w::len, 'a) BSRMat \<Rightarrow> bool" where
  "duplicate_free A \<longleftrightarrow>
     (\<forall>r < unat (nbrows A). \<forall>p q.
        unat (rowp A ! r) \<le> p \<and> p < q \<and> q < unat (rowp A ! Suc r) \<longrightarrow> cols A ! p \<noteq> cols A ! q)"

text \<open>A global scalar DOF \<open>d\<close> decomposes to a block index below \<open>nb\<close>, for blocks of \<open>B\<close> scalars.\<close>

definition dof_in_range :: "'w::len index_t \<Rightarrow> 'w index_t \<Rightarrow> 'w index_t \<Rightarrow> bool" where
  "dof_in_range B nb d \<longleftrightarrow> B \<noteq> 0 \<and> d div B < nb"

text \<open>
  \<open>r\<close> is the first slot between \<open>lo\<close> and \<open>hi\<close> whose entry of \<open>cs\<close> is \<open>col\<close>.
\<close>

definition first_slot :: "'w::len index_t list \<Rightarrow> 'w index_t \<Rightarrow> 'w index_t \<Rightarrow> 'w index_t \<Rightarrow>
    'w index_t \<Rightarrow> bool" where
  "first_slot cs col lo hi r \<longleftrightarrow>
     lo \<le> r \<and> r < hi \<and> cs ! unat r = col \<and> (\<forall>p. lo \<le> p \<and> p < r \<longrightarrow> cs ! unat p \<noteq> col)"

subsection \<open>Functions used to state the properties\<close>

text \<open>The members that describe the sparsity pattern and the solver metadata.\<close>

definition pattern_of where
  "pattern_of A = (nbrows A, nbcols A, nnz A, rowp A, cols A, diag A, perm A, iperm A,
     num_colors A, color_count A)"

text \<open>The matrix \<open>A\<close> with the cells of \<open>vals\<close> replaced by \<open>f\<close>.\<close>

definition set_cells :: "('w::len, 'a) BSRMat \<Rightarrow> (nat \<Rightarrow> nat \<Rightarrow> nat \<Rightarrow> 'a) \<Rightarrow> ('w, 'a) BSRMat" where
  "set_cells A f = A\<lparr>vals := (vals A)\<lparr>cell := f\<rparr>\<rparr>"

text \<open>
  The matrix \<open>A\<close> after the elimination of the in-block row \<open>er\<close> in the slots \<open>lo \<le> p < hi\<close>
  with respect to the block row \<open>br\<close>: the row is zero in each of these blocks, but for
  the entry \<open>(er, er)\<close> of a block whose column is \<open>br\<close>, which is 1.
\<close>

definition elim_row :: "'w::len index_t \<Rightarrow> ('w, 'a::{zero,one}) BSRMat \<Rightarrow> 'w index_t \<Rightarrow> 'w index_t \<Rightarrow>
    nat \<Rightarrow> nat \<Rightarrow> ('w, 'a) BSRMat" where
  "elim_row N A br er lo hi = set_cells A (\<lambda>p a b.
      if lo \<le> p \<and> p < hi \<and> a = unat er \<and> b < unat N
      then (if cols A ! p = br \<and> b = unat er then 1 else 0)
      else cell (vals A) p a b)"

text \<open>
  \<open>p\<close> is the first position between \<open>lo\<close> and \<open>hi\<close> whose entry of \<open>cs\<close> is \<open>col\<close>, for
  positions that are natural numbers.
\<close>

definition first_slot_nat :: "'b list \<Rightarrow> 'b \<Rightarrow> nat \<Rightarrow> nat \<Rightarrow> nat \<Rightarrow> bool" where
  "first_slot_nat cs col lo hi p \<longleftrightarrow>
     lo \<le> p \<and> p < hi \<and> cs ! p = col \<and> (\<forall>q. lo \<le> q \<and> q < p \<longrightarrow> cs ! q \<noteq> col)"

text \<open>
  The values \<open>lo, lo + 1, \<dots>, hi - 1\<close> that the counter of a loop from \<open>lo\<close> up to \<open>hi\<close>
  takes, in order, and those of a loop from 0.
\<close>

definition word_interval :: "'w::len index_t \<Rightarrow> 'w index_t \<Rightarrow> 'w index_t list" where
  "word_interval lo hi = map of_nat [unat lo ..< unat hi]"

definition word_range :: "'w::len index_t \<Rightarrow> 'w index_t list" where
  "word_range n = word_interval 0 n"

text \<open>
  The pair of DOFs \<open>(di, dj)\<close> addresses the scalar \<open>(a, b)\<close> of the slot \<open>p\<close>: \<open>p\<close> is the first
  slot of the block row \<open>di / M\<close> whose column is \<open>dj / N\<close>, and \<open>a = di % M\<close>, \<open>b = dj % N\<close>.
\<close>

definition hits :: "'w::len index_t \<Rightarrow> 'w index_t \<Rightarrow> ('w, 'a) BSRMat \<Rightarrow> 'w index_t \<Rightarrow> 'w index_t \<Rightarrow>
    nat \<Rightarrow> nat \<Rightarrow> nat \<Rightarrow> bool" where
  "hits M N A di dj p a b \<longleftrightarrow>
     first_slot_nat (cols A) (dj div N) (unat (rowp A ! unat (di div M)))
       (unat (rowp A ! unat (di div M + 1))) p \<and>
     a = unat (di mod M) \<and> b = unat (dj mod N)"

text \<open>
  The values \<open>mat(ii, jj)\<close> of a call of \<open>add_values\<close> that are addressed to the scalar
  \<open>(a, b)\<close> of the slot \<open>p\<close>, in the order of the loops: for one \<open>ii\<close>, and for all of them.
\<close>

definition row_contributions :: "'w::len index_t \<Rightarrow> 'w index_t \<Rightarrow> ('w, 'a) BSRMat \<Rightarrow>
    'w index_t list \<Rightarrow> 'w index_t \<Rightarrow> 'w index_t list \<Rightarrow> ('w index_t \<Rightarrow> 'w index_t \<Rightarrow> 'b) \<Rightarrow>
    'w index_t \<Rightarrow> nat \<Rightarrow> nat \<Rightarrow> nat \<Rightarrow> 'b list" where
  "row_contributions M N A i n j mat ii p a b =
     concat (map (\<lambda>jj. if hits M N A (i ! unat ii) (j ! unat jj) p a b then [mat ii jj] else [])
       (word_range n))"

definition contributions :: "'w::len index_t \<Rightarrow> 'w index_t \<Rightarrow> ('w, 'a) BSRMat \<Rightarrow>
    'w index_t \<Rightarrow> 'w index_t list \<Rightarrow> 'w index_t \<Rightarrow> 'w index_t list \<Rightarrow>
    ('w index_t \<Rightarrow> 'w index_t \<Rightarrow> 'b) \<Rightarrow> nat \<Rightarrow> nat \<Rightarrow> nat \<Rightarrow> 'b list" where
  "contributions M N A m i n j mat p a b =
     concat (map (\<lambda>ii. row_contributions M N A i n j mat ii p a b) (word_range m))"

text \<open>The block of the pair of DOFs \<open>(di, dj)\<close> is in the pattern.\<close>

definition block_present :: "'w::len index_t \<Rightarrow> 'w index_t \<Rightarrow> ('w, 'a) BSRMat \<Rightarrow> 'w index_t \<Rightarrow>
    'w index_t \<Rightarrow> bool" where
  "block_present M N A di dj \<longleftrightarrow>
     (\<exists>p. unat (rowp A ! unat (di div M)) \<le> p \<and> p < unat (rowp A ! unat (di div M + 1)) \<and>
          cols A ! p = dj div N)"

text \<open>The scalar \<open>(a, b)\<close> of the slot \<open>p\<close>.\<close>

definition scalar_at :: "nat \<Rightarrow> nat \<Rightarrow> nat \<Rightarrow> ('w::len, 'a) BSRMat \<Rightarrow> 'a" where
  "scalar_at p a b A = cell (vals A) p a b"

text \<open>
  A stored scalar: the scalar \<open>(ii, jj)\<close> of the slot \<open>p\<close>, a slot of the block row \<open>r\<close>.
\<close>

definition covered :: "'w::len index_t \<Rightarrow> 'w index_t \<Rightarrow> ('w, 'a) BSRMat \<Rightarrow>
    nat \<Rightarrow> nat \<Rightarrow> nat \<Rightarrow> nat \<Rightarrow> bool" where
  "covered M N A r p ii jj \<longleftrightarrow>
     r < unat (nbrows A) \<and> unat (rowp A ! r) \<le> p \<and> p < unat (rowp A ! Suc r) \<and>
     ii < unat M \<and> jj < unat N"

text \<open>
  Its place in the dense buffer: row \<open>M r + ii\<close> and column \<open>N cols[p] + jj\<close> of a row-major
  matrix with \<open>N nbcols\<close> columns.
\<close>

definition dense_index :: "'w::len index_t \<Rightarrow> 'w index_t \<Rightarrow> ('w, 'a) BSRMat \<Rightarrow>
    nat \<Rightarrow> nat \<Rightarrow> nat \<Rightarrow> nat \<Rightarrow> nat" where
  "dense_index M N A r p ii jj =
     unat N * unat (nbcols A) * (unat M * r + ii) + (unat N * unat (cols A ! p) + jj)"

text \<open>
  The dimensions of the dense matrix and its number of scalars can be represented in
  \<open>index_t\<close>.
\<close>

definition dense_fits :: "'w::len index_t \<Rightarrow> 'w index_t \<Rightarrow> ('w, 'a) BSRMat \<Rightarrow> bool" where
  "dense_fits M N A \<longleftrightarrow>
     unat M * unat (nbrows A) \<le> unat (MAX_INDEX :: 'w index_t) \<and>
     unat N * unat (nbcols A) \<le> unat (MAX_INDEX :: 'w index_t) \<and>
     unat M * unat (nbrows A) * (unat N * unat (nbcols A)) \<le> unat (MAX_INDEX :: 'w index_t)"

text \<open>
  The dense buffer after the stored scalars in \<open>W\<close> have been copied: they are in their
  places, and every place that belongs to none of them holds 0.
\<close>

definition dense_inv :: "'w::len index_t \<Rightarrow> 'w index_t \<Rightarrow> ('w, 'a::zero) BSRMat \<Rightarrow>
    (nat \<times> nat \<times> nat \<times> nat) set \<Rightarrow> 'a list \<Rightarrow> bool" where
  "dense_inv M N A W buf \<longleftrightarrow>
     length buf = unat M * unat (nbrows A) * (unat N * unat (nbcols A)) \<and>
     (\<forall>r p ii jj. (r, p, ii, jj) \<in> W \<longrightarrow>
        covered M N A r p ii jj \<and> buf ! dense_index M N A r p ii jj = cell (vals A) p ii jj) \<and>
     (\<forall>q < length buf. (\<forall>r p ii jj. (r, p, ii, jj) \<in> W \<longrightarrow> q \<noteq> dense_index M N A r p ii jj)
        \<longrightarrow> buf ! q = 0)"

text \<open>
  The entry lines of a MatrixMarket file in pattern order: the line of one stored scalar,
  with 1-based coordinates as \<open>%d\<close> prints them, the lines of one block, of one block row,
  and of the matrix.
\<close>

definition mtx_entry :: "'w::len index_t \<Rightarrow> 'w index_t \<Rightarrow> ('w, 'a) BSRMat \<Rightarrow>
    'w index_t \<Rightarrow> 'w index_t \<Rightarrow> 'w index_t \<Rightarrow> 'w index_t \<Rightarrow> 'a mtx_line" where
  "mtx_entry M N A i jp ii jj =
     Entry_line (print_d (M * i + ii + 1)) (print_d (N * (cols A ! unat jp) + jj + 1))
       (cell (vals A) (unat jp) (unat ii) (unat jj))"

definition mtx_block_lines :: "'w::len index_t \<Rightarrow> 'w index_t \<Rightarrow> ('w, 'a) BSRMat \<Rightarrow>
    'w index_t \<Rightarrow> 'w index_t \<Rightarrow> 'a mtx_line list" where
  "mtx_block_lines M N A i jp =
     concat (map (\<lambda>ii. map (mtx_entry M N A i jp ii) (word_interval 0 N)) (word_interval 0 M))"

definition mtx_row_lines :: "'w::len index_t \<Rightarrow> 'w index_t \<Rightarrow> ('w, 'a) BSRMat \<Rightarrow>
    'w index_t \<Rightarrow> 'a mtx_line list" where
  "mtx_row_lines M N A i =
     concat (map (mtx_block_lines M N A i) (word_interval (rowp A ! unat i) (rowp A ! unat (i + 1))))"

definition mtx_entries :: "'w::len index_t \<Rightarrow> 'w index_t \<Rightarrow> ('w, 'a) BSRMat \<Rightarrow>
    'a mtx_line list" where
  "mtx_entries M N A = concat (map (mtx_row_lines M N A) (word_interval 0 (nbrows A)))"

text \<open>
  The scalar dimensions and the number of stored scalars are at most \<open>INT_MAX\<close>, the
  largest number that \<open>%d\<close> prints as it is.
\<close>

definition mtx_fits :: "'w::len index_t \<Rightarrow> 'w index_t \<Rightarrow> ('w, 'a) BSRMat \<Rightarrow> bool" where
  "mtx_fits M N A \<longleftrightarrow>
     unat M * unat (nbrows A) < 2 ^ 31 \<and>
     unat N * unat (nbcols A) < 2 ^ 31 \<and>
     unat (nnz A) * unat M * unat N < 2 ^ 31"

subsection \<open>Example matrices\<close>

text \<open>
  The diagonal-only pattern with two block rows and two block columns, for 32-bit
  indices and real scalars; the scalar \<open>(i, j)\<close> of block \<open>p\<close> is \<open>4 p + 2 i + j + 1\<close>.
\<close>

definition example_mat :: "(32, real) BSRMat" where
  "example_mat = \<lparr>nbrows = 2, nbcols = 2, nnz = 2, rowp = [0, 1, 2], cols = [0, 1],
     diag = [], perm = [], iperm = [], num_colors = 0, color_count = [],
     vals = \<lparr>extent0 = 2, cell = \<lambda>p i j. real (4 * p + 2 * i + j + 1)\<rparr>\<rparr>"

text \<open>Contents of newly allocated memory, for the examples.\<close>

definition fresh_idx0 :: "nat \<Rightarrow> 32 index_t" where
  "fresh_idx0 k = 7"

definition fresh_val0 :: "nat \<Rightarrow> nat \<Rightarrow> nat \<Rightarrow> real" where
  "fresh_val0 p i j = 7"

text \<open>A local matrix with all entries 5.\<close>

definition example_local :: "32 index_t \<Rightarrow> 32 index_t \<Rightarrow> real" where
  "example_local ii jj = 5"

text \<open>
  A pattern with one block row that lists the block column 0 twice; the scalars of the
  slot \<open>p\<close> are \<open>10 + p\<close>.
\<close>

definition dup_mat :: "(32, real) BSRMat" where
  "dup_mat = \<lparr>nbrows = 1, nbcols = 1, nnz = 2, rowp = [0, 2], cols = [0, 0],
     diag = [], perm = [], iperm = [], num_colors = 0, color_count = [],
     vals = \<lparr>extent0 = 2, cell = \<lambda>p i j. real (10 + p)\<rparr>\<rparr>"

text \<open>
  A matrix of \<open>65536 \<times> 65536\<close> blocks with a single block, in the first block row and
  column; all its scalars are 1.
\<close>

definition wide_rowp :: "32 index_t list" where
  "wide_rowp = 0 # replicate 65536 1"

definition wide_mat :: "(32, real) BSRMat" where
  "wide_mat = \<lparr>nbrows = 65536, nbcols = 65536, nnz = 1, rowp = wide_rowp, cols = [0],
     diag = [], perm = [], iperm = [], num_colors = 0, color_count = [],
     vals = \<lparr>extent0 = 1, cell = \<lambda>p i j. 1\<rparr>\<rparr>"

text \<open>
  A matrix of \<open>1 \<times> 2^31\<close> blocks with no block, and a local matrix whose first column is
  100 and whose other entries are 5.
\<close>

definition long_mat :: "(32, real) BSRMat" where
  "long_mat = \<lparr>nbrows = 1, nbcols = 2147483648, nnz = 0, rowp = [0, 0], cols = [],
     diag = [], perm = [], iperm = [], num_colors = 0, color_count = [],
     vals = \<lparr>extent0 = 0, cell = \<lambda>p i j. 1\<rparr>\<rparr>"

definition mixed_local :: "32 index_t \<Rightarrow> 32 index_t \<Rightarrow> real" where
  "mixed_local ii jj = (if jj = 0 then 100 else 5)"

section \<open>Basic facts\<close>

lemma all_less_numeral:
  "(\<forall>r<numeral k. P r) \<longleftrightarrow> (\<forall>r<pred_numeral k. P r) \<and> P (pred_numeral k)"
  by (auto simp add: numeral_eq_Suc All_less_Suc)

lemma unat_succ: "k < n \<Longrightarrow> unat (k + 1) = Suc (unat k)" for k n :: "'w::len word"
  by unat_arith

lemma print_d_small:
  fixes x :: "'w::len word"
  assumes "unat x < 2 ^ 31"
  shows "print_d x = int (unat x)"
proof -
  let ?y = "ucast x :: 32 word"
  have u0: "0 \<le> uint x" by simp
  have "int (unat x) < int (2 ^ 31)" using assms by (rule iffD2[OF of_nat_less_iff])
  then have u: "uint x < 2 ^ 31" by (simp only: uint_nat of_nat_power of_nat_numeral)
  also have "(2 :: int) ^ 31 \<le> 2 ^ 32" by (rule power_increasing) simp_all
  finally have "take_bit 32 (uint x) = uint x" using u0 by (intro take_bit_int_eq_self)
  moreover have l: "LENGTH(32) = 32" by simp
  ultimately have 1: "uint ?y = uint x" by (simp only: unsigned_ucast_eq)
  have n: "LENGTH(32) - Suc 0 = 31" by simp
  have "- (2 ^ 31) \<le> uint x" using u0 by (rule order_trans[rotated]) simp
  then have "signed_take_bit 31 (uint x) = uint x" using u by (rule signed_take_bit_int_eq_self)
  then have "sint ?y = uint x" by (simp only: sint_uint n 1)
  then show ?thesis by (simp only: print_d_def uint_nat)
qed

lemma MAX_INDEX_not_less: "\<not> MAX_INDEX < (p :: 'w::len word)"
  by (simp add: MAX_INDEX_def)

lemma less_not_MAX_INDEX: "p < q \<Longrightarrow> p \<noteq> (MAX_INDEX :: 'w::len word)"
  using MAX_INDEX_not_less by blast

subsection \<open>Loops\<close>

text \<open>A loop whose body keeps an invariant of counter and state returns, and the invariant
  holds at the bound.\<close>

lemma for_loop_total:
  assumes "i \<le> n" and "I i s"
    and step: "\<And>k t. i \<le> k \<Longrightarrow> k < n \<Longrightarrow> I k t \<Longrightarrow> \<exists>t'. body k t = Some t' \<and> I (k + 1) t'"
  shows "\<exists>s'. for_loop i n body s = Some s' \<and> I n s'"
  using assms
proof (induction i n body s rule: for_loop.induct)
  case (1 i n body s)
  show ?case
  proof (cases "i < n")
    case True
    from "1.prems"(3)[OF order_refl True "1.prems"(2)]
    obtain t where t: "body i s = Some t" "I (i + 1) t" by blast
    have le: "i + 1 \<le> n" using True by (rule inc_le)
    have le2: "i \<le> i + 1" using True by unat_arith
    have "\<exists>s'. for_loop (i + 1) n body t = Some s' \<and> I n s'"
    proof (rule "1.IH"[OF True t(1) le t(2)])
      fix k u assume "i + 1 \<le> k" "k < n" "I k u"
      then show "\<exists>t'. body k u = Some t' \<and> I (k + 1) t'"
        using "1.prems"(3)[of k u] le2 by auto
    qed
    then show ?thesis using True t by (subst for_loop.simps) simp
  next
    case False
    then have "i = n" using "1.prems"(1) by simp
    then show ?thesis using "1.prems"(2) by (subst for_loop.simps) simp
  qed
qed

text \<open>A property of the state that every step keeps holds of the result of a loop.\<close>

lemma for_loop_partial:
  assumes "for_loop i n body s = Some s'" and "I s"
    and step: "\<And>k t t'. k < n \<Longrightarrow> I t \<Longrightarrow> body k t = Some t' \<Longrightarrow> I t'"
  shows "I s'"
  using assms
proof (induction i n body s rule: for_loop.induct)
  case (1 i n body s)
  show ?case
  proof (cases "i < n")
    case True
    with "1.prems"(1) obtain t where t: "body i s = Some t" "for_loop (i + 1) n body t = Some s'"
      by (subst (asm) for_loop.simps) (auto split: option.splits)
    show ?thesis
      by (rule "1.IH"[OF True t(1) t(2) "1.prems"(3)[OF True "1.prems"(2) t(1)]]) (rule "1.prems"(3))
  next
    case False
    then show ?thesis using "1.prems"(1,2) by (subst (asm) for_loop.simps) simp
  qed
qed

subsection \<open>Rows of a valid pattern\<close>

lemma rowp_mono:
  assumes "valid_csr A" and "r \<le> r'" and "r' \<le> unat (nbrows A)"
  shows "rowp A ! r \<le> rowp A ! r'"
  using assms(2,3)
proof (induction r')
  case 0
  then show ?case by simp
next
  case (Suc r')
  show ?case
  proof (cases "r = Suc r'")
    case True
    then show ?thesis by simp
  next
    case False
    with Suc.prems have "r \<le> r'" "r' < unat (nbrows A)" by simp_all
    moreover from this have "rowp A ! r' \<le> rowp A ! Suc r'"
      using assms(1) by (simp add: valid_csr_def)
    ultimately show ?thesis using Suc.IH by force
  qed
qed

lemma row_range:
  assumes "valid_csr A" and "row < nbrows A"
  shows "unat (row + 1) = Suc (unat row)"
    and "Suc (unat row) < length (rowp A)"
    and "rowp A ! unat row \<le> rowp A ! Suc (unat row)"
    and "unat (rowp A ! Suc (unat row)) \<le> length (cols A)"
proof -
  show s: "unat (row + 1) = Suc (unat row)" using assms(2) by (rule unat_succ)
  have lt: "unat row < unat (nbrows A)" using assms(2) by (simp add: word_less_nat_alt)
  then show "Suc (unat row) < length (rowp A)" using assms(1) by (simp add: valid_csr_def)
  show "rowp A ! unat row \<le> rowp A ! Suc (unat row)"
    using assms(1) lt by (simp add: valid_csr_def)
  have "rowp A ! Suc (unat row) \<le> rowp A ! unat (nbrows A)"
    using lt by (intro rowp_mono[OF assms(1)]) simp_all
  then show "unat (rowp A ! Suc (unat row)) \<le> length (cols A)"
    using assms(1) by (simp add: valid_csr_def word_le_nat_alt)
qed

subsection \<open>Lookup\<close>

lemma find_column_scan_spec:
  assumes "unat jp_end \<le> length cs" and "jp \<le> jp_end"
  shows "\<exists>r. find_column_scan cs col jp jp_end = Some r \<and>
           (if \<exists>p. jp \<le> p \<and> p < jp_end \<and> cs ! unat p = col
            then first_slot cs col jp jp_end r
            else r = MAX_INDEX)"
  using assms
proof (induction cs col jp jp_end rule: find_column_scan.induct)
  case (1 cs col jp jp_end)
  show ?case
  proof (cases "jp < jp_end")
    case False
    then show ?thesis by (subst find_column_scan.simps) auto
  next
    case True
    then have inb: "unat jp < length cs" using "1.prems"(1) by unat_arith
    have get: "idx_get cs jp = Some (cs ! unat jp)" using inb by (simp add: idx_get_def)
    show ?thesis
    proof (cases "cs ! unat jp = col")
      case hit: True
      have "first_slot cs col jp jp_end jp" using True hit by (auto simp: first_slot_def)
      moreover have "\<exists>p. jp \<le> p \<and> p < jp_end \<and> cs ! unat p = col" using True hit by auto
      ultimately show ?thesis using True get hit by (subst find_column_scan.simps) simp
    next
      case miss: False
      have le: "jp + 1 \<le> jp_end" using True by (rule inc_le)
      from "1.IH"[OF True get miss "1.prems"(1) le]
      obtain r where r: "find_column_scan cs col (jp + 1) jp_end = Some r"
        "if \<exists>p. jp + 1 \<le> p \<and> p < jp_end \<and> cs ! unat p = col
         then first_slot cs col (jp + 1) jp_end r else r = MAX_INDEX" by blast
      have split: "\<And>p. jp \<le> p \<longleftrightarrow> p = jp \<or> jp + 1 \<le> p"
        using True by unat_arith
      have ex: "(\<exists>p. jp \<le> p \<and> p < jp_end \<and> cs ! unat p = col) \<longleftrightarrow>
                (\<exists>p. jp + 1 \<le> p \<and> p < jp_end \<and> cs ! unat p = col)"
        using miss split by auto
      have fs: "first_slot cs col (jp + 1) jp_end r \<Longrightarrow> first_slot cs col jp jp_end r"
        unfolding first_slot_def using miss split by auto
      have "find_column_scan cs col jp jp_end = Some r"
        using True get miss r(1) by (subst find_column_scan.simps) simp
      then show ?thesis using r(2) ex fs by auto
    qed
  qed
qed

lemma find_column_index_spec:
  assumes "valid_csr A" and "row < nbrows A"
  shows "\<exists>r. find_column_index A row col = Some r \<and>
           (if \<exists>p. rowp A ! unat row \<le> p \<and> p < rowp A ! Suc (unat row) \<and> cols A ! unat p = col
            then first_slot (cols A) col (rowp A ! unat row) (rowp A ! Suc (unat row)) r
            else r = MAX_INDEX)"
proof -
  note rr = row_range[OF assms]
  have g1: "idx_get (rowp A) row = Some (rowp A ! unat row)"
    using rr(2) by (simp add: idx_get_def)
  have g2: "idx_get (rowp A) (row + 1) = Some (rowp A ! Suc (unat row))"
    using rr(1,2) by (simp add: idx_get_def)
  show ?thesis
    using find_column_scan_spec[OF rr(4) rr(3), of col]
    by (simp add: find_column_index_def g1 g2)
qed

lemma valid_example_mat: "valid_csr example_mat"
  by (simp add: valid_csr_def example_mat_def all_less_numeral)

subsection \<open>Cells\<close>

lemma set_cells_simps [simp]:
  "cell (vals (set_cells A f)) = f"
  "extent0 (vals (set_cells A f)) = extent0 (vals A)"
  "set_cells (set_cells A f) g = set_cells A g"
  "set_cells A (cell (vals A)) = A"
  "nbrows (set_cells A f) = nbrows A"
  "nbcols (set_cells A f) = nbcols A"
  "nnz (set_cells A f) = nnz A"
  "rowp (set_cells A f) = rowp A"
  "cols (set_cells A f) = cols A"
  "vals_in M N (vals (set_cells A f)) p i j = vals_in M N (vals A) p i j"
  by (simp_all add: set_cells_def vals_in_def)

lemma set_cells_cong: "(\<And>p a b. f p a b = g p a b) \<Longrightarrow> set_cells A f = set_cells A g"
proof -
  assume "\<And>p a b. f p a b = g p a b"
  then have "f = g" by (intro ext)
  then show ?thesis by simp
qed

lemma valid_csr_set_cells [simp]: "valid_csr (set_cells A f) = valid_csr A"
  by (simp add: valid_csr_def)

lemma write_cell:
  assumes "vals_in M N (vals A) p i j"
  shows "vals_write M N (vals A) p i j x \<bind> (\<lambda>v. Some (A\<lparr>vals := v\<rparr>)) =
    Some (set_cells A (\<lambda>p' i' j'.
       if p' = unat p \<and> i' = unat i \<and> j' = unat j then x else cell (vals A) p' i' j'))"
  using assms by (simp add: vals_write_def set_cells_def)

lemma for_loop_single: "for_loop 0 1 body s = body 0 s"
  by (simp add: for_loop.simps[of 0 1] for_loop.simps[of 1 1] split: option.splits)

lemma dof_in_rangeD:
  assumes "dof_in_range B nb d"
  shows "B \<noteq> 0" and "d div B < nb" and "d mod B < B"
    and "unat d = unat B * unat (d div B) + unat (d mod B)"
proof -
  show b: "B \<noteq> 0" and "d div B < nb" using assms by (simp_all add: dof_in_range_def)
  then have "0 < unat B" by (simp add: unat_gt_0)
  then show "d mod B < B" by (simp add: word_less_nat_alt unat_mod)
  show "unat d = unat B * unat (d div B) + unat (d mod B)"
    by (simp add: unat_div unat_mod)
qed

subsection \<open>The pattern is kept\<close>

lemma pattern_of_vals [simp]: "pattern_of (A\<lparr>vals := v\<rparr>) = pattern_of A"
  by (simp add: pattern_of_def)

lemma add_values_col_pattern:
  "add_values_col M N j mat ii br er jj A = Some A' \<Longrightarrow> pattern_of A' = pattern_of A"
  by (auto simp: add_values_col_def split: bind_splits if_splits)

lemma add_values_row_pattern:
  assumes "add_values_row M N i n j mat ii A = Some A'"
  shows "pattern_of A' = pattern_of A"
proof -
  from assms obtain br er where
    l: "for_loop 0 n (add_values_col M N j mat ii br er) A = Some A'"
    by (auto simp: add_values_row_def split: bind_splits)
  show ?thesis
    by (rule for_loop_partial[OF l, where I = "\<lambda>t. pattern_of t = pattern_of A"])
       (simp_all add: add_values_col_pattern)
qed

lemma add_values_pattern:
  assumes "add_values M N m i n j mat A = Some A'"
  shows "pattern_of A' = pattern_of A"
  by (rule for_loop_partial[OF assms[unfolded add_values_def],
        where I = "\<lambda>t. pattern_of t = pattern_of A"])
     (simp_all add: add_values_row_pattern)

lemma zero_rows_k_pattern:
  "zero_rows_k M N jp er k A = Some A' \<Longrightarrow> pattern_of A' = pattern_of A"
  by (auto simp: zero_rows_k_def split: bind_splits)

lemma zero_rows_block_pattern:
  assumes "zero_rows_block M N br er jp A = Some A'"
  shows "pattern_of A' = pattern_of A"
proof -
  from assms obtain A1 where
    l: "for_loop 0 N (zero_rows_k M N jp er) A = Some A1" and
    r: "pattern_of A' = pattern_of A1"
    by (auto simp: zero_rows_block_def split: bind_splits if_splits)
  have "pattern_of A1 = pattern_of A"
    by (rule for_loop_partial[OF l, where I = "\<lambda>t. pattern_of t = pattern_of A"])
       (simp_all add: zero_rows_k_pattern)
  with r show ?thesis by simp
qed

lemma zero_rows_dof_pattern:
  assumes "zero_rows_dof M N dof ii A = Some A'"
  shows "pattern_of A' = pattern_of A"
proof -
  from assms obtain br er lo hi where
    l: "for_loop lo hi (zero_rows_block M N br er) A = Some A'"
    by (auto simp: zero_rows_dof_def split: bind_splits)
  show ?thesis
    by (rule for_loop_partial[OF l, where I = "\<lambda>t. pattern_of t = pattern_of A"])
       (simp_all add: zero_rows_block_pattern)
qed

lemma zero_rows_pattern:
  assumes "zero_rows M N nbcs dof A = Some A'"
  shows "pattern_of A' = pattern_of A"
  by (rule for_loop_partial[OF assms[unfolded zero_rows_def],
        where I = "\<lambda>t. pattern_of t = pattern_of A"])
     (simp_all add: zero_rows_dof_pattern)

lemma call_pattern:
  assumes "call M N operation A = Some (A', out)"
  shows "pattern_of A' = pattern_of A"
proof (cases operation)
  case Call_zero
  with assms show ?thesis by (auto simp: zero_def pattern_of_def)
next
  case (Call_find_column_index row col)
  with assms show ?thesis by auto
next
  case (Call_add_values m i n j mat)
  with assms show ?thesis by (auto dest: add_values_pattern)
next
  case (Call_zero_rows nbcs dof)
  with assms show ?thesis by (auto dest: zero_rows_pattern)
next
  case Call_to_dense
  with assms show ?thesis by auto
next
  case (Call_write_mtx opened)
  with assms show ?thesis by auto
qed

subsection \<open>Construction\<close>

lemma copy_rowp_loop:
  fixes A0 :: "('w::len, 'a) BSRMat" and n :: "'w word"
  assumes len: "unat n \<le> length src" and nL: "unat n \<le> length (rowp A0)"
  shows "\<exists>l. for_loop 0 n (\<lambda>i A. do { x \<leftarrow> idx_get src i; r \<leftarrow> idx_set (rowp A) i x; Some (A\<lparr>rowp := r\<rparr>) }) A0
            = Some (A0\<lparr>rowp := l\<rparr>)
      \<and> length l = length (rowp A0) \<and> (\<forall>i < unat n. l ! i = src ! i)"
proof -
  let ?I = "\<lambda>(k :: 'w word) t. \<exists>l. t = A0\<lparr>rowp := l\<rparr> \<and> length l = length (rowp A0) \<and> (\<forall>i < unat k. l ! i = src ! i)"
  let ?body = "\<lambda>i A. do { x \<leftarrow> idx_get src i; r \<leftarrow> idx_set (rowp A) i x; Some (A\<lparr>rowp := r\<rparr>) }"
  have "\<exists>s'. for_loop 0 n ?body A0 = Some s' \<and> ?I n s'"
  proof (rule for_loop_total[where I = ?I])
    show "0 \<le> n" by simp
    show "?I 0 A0" by (intro exI[of _ "rowp A0"]) simp
  next
    fix k t assume k: "0 \<le> k" "k < n" and I: "?I k t"
    then obtain l where l: "t = A0\<lparr>rowp := l\<rparr>" "length l = length (rowp A0)"
      "\<forall>i < unat k. l ! i = src ! i" by blast
    have kn: "unat k < unat n" using k(2) by (simp add: word_less_nat_alt)
    have s: "unat (k + 1) = Suc (unat k)" using k(2) by (rule unat_succ)
    have g: "idx_get src k = Some (src ! unat k)" using kn len by (simp add: idx_get_def)
    have u: "idx_set l k (src ! unat k) = Some (l[unat k := src ! unat k])"
      using kn nL l(2) by (simp add: idx_set_def)
    have "?I (k + 1) (A0\<lparr>rowp := l[unat k := src ! unat k]\<rparr>)"
      using l(2,3) kn nL by (intro exI[of _ "l[unat k := src ! unat k]"])
        (auto simp: s less_Suc_eq nth_list_update)
    then show "\<exists>t'. ?body k t = Some t' \<and> ?I (k + 1) t'"
      by (simp add: l(1) g u)
  qed
  then show ?thesis by blast
qed

lemma copy_cols_loop:
  fixes A0 :: "('w::len, 'a) BSRMat" and n :: "'w word"
  assumes len: "unat n \<le> length src" and nL: "unat n \<le> length (cols A0)"
  shows "\<exists>l. for_loop 0 n (\<lambda>i A. do { x \<leftarrow> idx_get src i; c \<leftarrow> idx_set (cols A) i x; Some (A\<lparr>cols := c\<rparr>) }) A0
            = Some (A0\<lparr>cols := l\<rparr>)
      \<and> length l = length (cols A0) \<and> (\<forall>i < unat n. l ! i = src ! i)"
proof -
  let ?I = "\<lambda>(k :: 'w word) t. \<exists>l. t = A0\<lparr>cols := l\<rparr> \<and> length l = length (cols A0) \<and> (\<forall>i < unat k. l ! i = src ! i)"
  let ?body = "\<lambda>i A. do { x \<leftarrow> idx_get src i; c \<leftarrow> idx_set (cols A) i x; Some (A\<lparr>cols := c\<rparr>) }"
  have "\<exists>s'. for_loop 0 n ?body A0 = Some s' \<and> ?I n s'"
  proof (rule for_loop_total[where I = ?I])
    show "0 \<le> n" by simp
    show "?I 0 A0" by (intro exI[of _ "cols A0"]) simp
  next
    fix k t assume k: "0 \<le> k" "k < n" and I: "?I k t"
    then obtain l where l: "t = A0\<lparr>cols := l\<rparr>" "length l = length (cols A0)"
      "\<forall>i < unat k. l ! i = src ! i" by blast
    have kn: "unat k < unat n" using k(2) by (simp add: word_less_nat_alt)
    have s: "unat (k + 1) = Suc (unat k)" using k(2) by (rule unat_succ)
    have g: "idx_get src k = Some (src ! unat k)" using kn len by (simp add: idx_get_def)
    have u: "idx_set l k (src ! unat k) = Some (l[unat k := src ! unat k])"
      using kn nL l(2) by (simp add: idx_set_def)
    have "?I (k + 1) (A0\<lparr>cols := l[unat k := src ! unat k]\<rparr>)"
      using l(2,3) kn nL by (intro exI[of _ "l[unat k := src ! unat k]"])
        (auto simp: s less_Suc_eq nth_list_update)
    then show "\<exists>t'. ?body k t = Some t' \<and> ?I (k + 1) t'"
      by (simp add: l(1) g u)
  qed
  then show ?thesis by blast
qed

lemma BSRMat_new_spec:
  fixes nbrows' :: "'w::len word"
  assumes nb: "nbrows' < MAX_INDEX"
    and lr: "unat nbrows' + 1 \<le> length rowp_in" and lc: "unat nnz' \<le> length cols_in"
  shows "\<exists>lr lc. BSRMat_new fresh_idx fresh_val nbrows' nbcols' nnz' rowp_in cols_in =
           Some \<lparr>nbrows = nbrows', nbcols = nbcols', nnz = nnz', rowp = lr, cols = lc,
                 diag = [], perm = [], iperm = [], num_colors = fresh_idx 0, color_count = [],
                 vals = \<lparr>extent0 = unat nnz', cell = fresh_val\<rparr>\<rparr>
         \<and> lr = take (unat nbrows' + 1) rowp_in \<and> lc = take (unat nnz') cols_in"
proof -
  have s: "unat (nbrows' + 1) = Suc (unat nbrows')" using nb by (rule unat_succ)
  let ?A0 = "\<lparr>nbrows = nbrows', nbcols = nbcols', nnz = nnz',
               rowp = map fresh_idx [0 ..< unat (nbrows' + 1)],
               cols = map fresh_idx [0 ..< unat nnz'],
               diag = [], perm = [], iperm = [],
               num_colors = fresh_idx 0, color_count = [],
               vals = \<lparr>extent0 = unat nnz', cell = fresh_val\<rparr>\<rparr>"
  from copy_rowp_loop[of "nbrows' + 1" rowp_in ?A0] lr s
  obtain l1 where l1: "for_loop 0 (nbrows' + 1) (\<lambda>i A. do { x \<leftarrow> idx_get rowp_in i; r \<leftarrow> idx_set (rowp A) i x; Some (A\<lparr>rowp := r\<rparr>) }) ?A0
            = Some (?A0\<lparr>rowp := l1\<rparr>)" "length l1 = Suc (unat nbrows')" "\<forall>i < Suc (unat nbrows'). l1 ! i = rowp_in ! i"
    by auto
  from copy_cols_loop[of "nnz'" cols_in "?A0\<lparr>rowp := l1\<rparr>"] lc
  obtain l2 where l2: "for_loop 0 nnz' (\<lambda>i A. do { x \<leftarrow> idx_get cols_in i; c \<leftarrow> idx_set (cols A) i x; Some (A\<lparr>cols := c\<rparr>) }) (?A0\<lparr>rowp := l1\<rparr>)
            = Some (?A0\<lparr>rowp := l1, cols := l2\<rparr>)" "length l2 = unat nnz'" "\<forall>i < unat nnz'. l2 ! i = cols_in ! i"
    by auto
  have e1: "l1 = take (unat nbrows' + 1) rowp_in"
    using l1(2,3) lr by (intro nth_equalityI) auto
  have e2: "l2 = take (unat nnz') cols_in"
    using l2(2,3) lc by (intro nth_equalityI) auto
  show ?thesis
    unfolding BSRMat_new_def Let_def using l1(1) l2(1) e1 e2 by simp
qed

lemma BSRMat_new_wraps:
  "map_option rowp (BSRMat_new fresh_idx fresh_val MAX_INDEX nbcols' 0 rowp_in cols_in) = Some []"
  by (simp add: BSRMat_new_def MAX_INDEX_def for_loop.simps[of 0 0])

subsection \<open>Row elimination\<close>

lemma zero_rows_k_loop:
  fixes A :: "('w::len, 'a::{zero,one}) BSRMat"
  assumes "unat jp < extent0 (vals A)" and "er < M"
  shows "for_loop 0 N (zero_rows_k M N jp er) A =
    Some (set_cells A (\<lambda>p a b.
      if p = unat jp \<and> a = unat er \<and> b < unat N then 0 else cell (vals A) p a b))"
proof -
  let ?S = "\<lambda>k :: 'w word. set_cells A (\<lambda>p a b.
      if p = unat jp \<and> a = unat er \<and> b < unat k then 0 else cell (vals A) p a b)"
  have "\<exists>s'. for_loop 0 N (zero_rows_k M N jp er) A = Some s' \<and> s' = ?S N"
  proof (rule for_loop_total[where I = "\<lambda>k t. t = ?S k"])
    show "0 \<le> N" by simp
    show "A = ?S 0" by simp
  next
    fix k t assume k: "0 \<le> k" "k < N" and t: "t = ?S k"
    have s: "unat (k + 1) = Suc (unat k)" using k(2) by (rule unat_succ)
    have inb: "vals_in M N (vals t) jp er k" using assms k(2) t by (simp add: vals_in_def)
    have "zero_rows_k M N jp er k t = Some (set_cells A (\<lambda>p a b.
        if p = unat jp \<and> a = unat er \<and> b = unat k then 0 else cell (vals t) p a b))"
      unfolding zero_rows_k_def write_cell[OF inb] by (simp add: t)
    also have "set_cells A (\<lambda>p a b.
        if p = unat jp \<and> a = unat er \<and> b = unat k then 0 else cell (vals t) p a b) = ?S (k + 1)"
      by (rule set_cells_cong) (auto simp: t s)
    finally show "\<exists>t'. zero_rows_k M N jp er k t = Some t' \<and> t' = ?S (k + 1)" by simp
  qed
  then show ?thesis by simp
qed

lemma zero_rows_block_spec:
  fixes A :: "('w::len, 'a::{zero,one}) BSRMat"
  assumes "unat jp < extent0 (vals A)" and "unat jp < length (cols A)" and "er < M"
    and "cols A ! unat jp = br \<Longrightarrow> er < N"
  shows "zero_rows_block M N br er jp A = Some (elim_row N A br er (unat jp) (Suc (unat jp)))"
proof -
  let ?A1 = "set_cells A (\<lambda>p a b.
      if p = unat jp \<and> a = unat er \<and> b < unat N then 0 else cell (vals A) p a b)"
  note l = zero_rows_k_loop[OF assms(1,3), of N]
  have g: "idx_get (cols A) jp = Some (cols A ! unat jp)" using assms(2) by (simp add: idx_get_def)
  show ?thesis
  proof (cases "cols A ! unat jp = br")
    case True
    then have inb: "vals_in M N (vals ?A1) jp er er" using assms by (simp add: vals_in_def)
    have lt: "unat er < unat N" using assms(4)[OF True] by (simp add: word_less_nat_alt)
    have "zero_rows_block M N br er jp A = Some (set_cells A (\<lambda>p' i' j'.
       if p' = unat jp \<and> i' = unat er \<and> j' = unat er then 1 else cell (vals ?A1) p' i' j'))"
      unfolding zero_rows_block_def l using True write_cell[OF inb, of 1] by (simp add: g)
    also have "set_cells A (\<lambda>p' i' j'.
       if p' = unat jp \<and> i' = unat er \<and> j' = unat er then 1 else cell (vals ?A1) p' i' j')
       = elim_row N A br er (unat jp) (Suc (unat jp))"
      unfolding elim_row_def using True lt by (intro set_cells_cong) (auto simp: less_Suc_eq_le)
    finally show ?thesis .
  next
    case False
    have "zero_rows_block M N br er jp A = Some ?A1"
      unfolding zero_rows_block_def l using False by (simp add: g)
    also have "?A1 = elim_row N A br er (unat jp) (Suc (unat jp))"
      unfolding elim_row_def using False by (intro set_cells_cong) (auto simp: less_Suc_eq_le)
    finally show ?thesis .
  qed
qed

lemma elim_row_simps [simp]:
  "cols (elim_row N A br er lo hi) = cols A"
  "rowp (elim_row N A br er lo hi) = rowp A"
  "extent0 (vals (elim_row N A br er lo hi)) = extent0 (vals A)"
  by (simp_all add: elim_row_def)

lemma zero_rows_block_loop:
  fixes A :: "('w::len, 'a::{zero,one}) BSRMat"
  assumes "lo \<le> hi" and "unat hi \<le> extent0 (vals A)" and "unat hi \<le> length (cols A)" and "er < M"
    and "\<And>p. lo \<le> p \<Longrightarrow> p < hi \<Longrightarrow> cols A ! unat p = br \<Longrightarrow> er < N"
  shows "for_loop lo hi (zero_rows_block M N br er) A = Some (elim_row N A br er (unat lo) (unat hi))"
proof -
  have "\<exists>s'. for_loop lo hi (zero_rows_block M N br er) A = Some s' \<and>
      s' = elim_row N A br er (unat lo) (unat hi)"
  proof (rule for_loop_total[where I = "\<lambda>k t. t = elim_row N A br er (unat lo) (unat k)"])
    show "lo \<le> hi" by fact
    have "set_cells A (\<lambda>p a b. if unat lo \<le> p \<and> p < unat lo \<and> a = unat er \<and> b < unat N
              then (if cols A ! p = br \<and> b = unat er then (1::'a) else 0)
              else cell (vals A) p a b) = set_cells A (cell (vals A))"
      by (rule set_cells_cong) auto
    then show "A = elim_row N A br er (unat lo) (unat lo)" by (simp add: elim_row_def)
  next
    fix k t assume k: "lo \<le> k" "k < hi" and t: "t = elim_row N A br er (unat lo) (unat k)"
    have s: "unat (k + 1) = Suc (unat k)" using k(2) by (rule unat_succ)
    have kh: "unat k < unat hi" using k(2) by (simp add: word_less_nat_alt)
    have lk: "unat lo \<le> unat k" using k(1) by (simp add: word_le_nat_alt)
    have "zero_rows_block M N br er k t = Some (elim_row N t br er (unat k) (Suc (unat k)))"
      using assms(2,3,4) kh assms(5)[OF k] by (intro zero_rows_block_spec) (simp_all add: t)
    moreover have "elim_row N t br er (unat k) (Suc (unat k)) = elim_row N A br er (unat lo) (unat (k + 1))"
      unfolding t s elim_row_def set_cells_simps using lk
      by (intro set_cells_cong) (auto simp: less_Suc_eq)
    ultimately show "\<exists>t'. zero_rows_block M N br er k t = Some t' \<and>
        t' = elim_row N A br er (unat lo) (unat (k + 1))" by simp
  qed
  then show ?thesis by simp
qed

lemma zero_rows_dof_spec:
  fixes A :: "('w::len, 'a::{zero,one}) BSRMat"
  assumes v: "valid_csr A" and ii: "unat ii < length dof" and r: "dof_in_range M (nbrows A) (dof ! unat ii)"
    and dg: "\<And>p. rowp A ! unat (dof ! unat ii div M) \<le> p \<Longrightarrow> p < rowp A ! Suc (unat (dof ! unat ii div M)) \<Longrightarrow>
        cols A ! unat p = dof ! unat ii div M \<Longrightarrow> dof ! unat ii mod M < N"
  shows "zero_rows_dof M N dof ii A =
    Some (elim_row N A (dof ! unat ii div M) (dof ! unat ii mod M)
           (unat (rowp A ! unat (dof ! unat ii div M))) (unat (rowp A ! Suc (unat (dof ! unat ii div M)))))"
proof -
  note d = dof_in_rangeD[OF r]
  note rr = row_range[OF v d(2)]
  have ext: "unat (rowp A ! Suc (unat (dof ! unat ii div M))) \<le> extent0 (vals A)"
    using rr(4) v by (simp add: valid_csr_def)
  show ?thesis
    unfolding zero_rows_dof_def
    using zero_rows_block_loop[OF rr(3) ext rr(4) d(3), of "dof ! unat ii div M" N] dg ii d(1) rr(1,2)
    by (simp add: idx_get_def idx_div_def idx_mod_def)
qed

lemma row_disjoint:
  assumes v: "valid_csr A" and r: "r < unat (nbrows A)" and r': "r' < unat (nbrows A)"
    and p: "unat (rowp A ! r) \<le> p" "p < unat (rowp A ! Suc r)"
    and p': "unat (rowp A ! r') \<le> p" "p < unat (rowp A ! Suc r')"
  shows "r = r'"
proof (rule ccontr)
  assume "r \<noteq> r'"
  then consider "Suc r \<le> r'" | "Suc r' \<le> r" by linarith
  then show False
  proof cases
    case 1
    then have "rowp A ! Suc r \<le> rowp A ! r'" using r' by (intro rowp_mono[OF v]) simp_all
    then show False using p(2) p'(1) by (simp add: word_le_nat_alt)
  next
    case 2
    then have "rowp A ! Suc r' \<le> rowp A ! r" using r by (intro rowp_mono[OF v]) simp_all
    then show False using p'(2) p(1) by (simp add: word_le_nat_alt)
  qed
qed

lemma zero_rows_single_run:
  fixes A :: "('w::len, 'a::{zero,one}) BSRMat"
  assumes "valid_csr A" and "dof_in_range M (nbrows A) d"
    and "\<And>p. rowp A ! unat (d div M) \<le> p \<Longrightarrow> p < rowp A ! Suc (unat (d div M)) \<Longrightarrow>
             cols A ! unat p = d div M \<Longrightarrow> d mod M < N"
  shows "zero_rows M N 1 [d] A =
    Some (elim_row N A (d div M) (d mod M)
           (unat (rowp A ! unat (d div M))) (unat (rowp A ! Suc (unat (d div M)))))"
  unfolding zero_rows_def for_loop_single
  using zero_rows_dof_spec[of A 0 "[d]" M N] assms by simp

lemma example_mat_simps:
  "nbrows example_mat = 2" "nbcols example_mat = 2" "nnz example_mat = 2"
  "rowp example_mat = [0, 1, 2]" "cols example_mat = [0, 1]"
  "extent0 (vals example_mat) = 2"
  "cell (vals example_mat) p i j = real (4 * p + 2 * i + j + 1)"
  by (simp_all add: example_mat_def)

subsection \<open>Assembly\<close>

lemma word_interval_succ:
  fixes lo k hi :: "'w::len word"
  assumes "lo \<le> k" and "k < hi"
  shows "word_interval lo (k + 1) = word_interval lo k @ [k]"
proof -
  have "unat lo \<le> unat k" using assms(1) by (simp add: word_le_nat_alt)
  then show ?thesis using unat_succ[OF assms(2)] by (simp add: word_interval_def)
qed

lemma word_interval_empty [simp]: "word_interval lo lo = []"
  by (simp add: word_interval_def)

lemma set_word_interval:
  fixes lo hi k :: "'w::len word"
  shows "k \<in> set (word_interval lo hi) \<longleftrightarrow> lo \<le> k \<and> k < hi"
proof
  assume "k \<in> set (word_interval lo hi)"
  then obtain x where x: "unat lo \<le> x" "x < unat hi" "k = of_nat x"
    by (auto simp: word_interval_def)
  have "unat (of_nat x :: 'w word) = x" using x(2) by (intro le_unat_uoi[of _ hi]) simp
  with x show "lo \<le> k \<and> k < hi" by (simp add: word_le_nat_alt word_less_nat_alt)
next
  assume "lo \<le> k \<and> k < hi"
  then have "k = of_nat (unat k)" and "unat k \<in> set [unat lo ..< unat hi]"
    by (simp_all add: word_le_nat_alt word_less_nat_alt)
  then show "k \<in> set (word_interval lo hi)" unfolding word_interval_def set_map by (rule image_eqI)
qed

lemma length_word_interval [simp]: "length (word_interval lo hi) = unat hi - unat lo"
  by (simp add: word_interval_def)

lemma word_range_succ:
  fixes k n :: "'w::len word"
  assumes "k < n"
  shows "word_range (k + 1) = word_range k @ [k]"
  using assms by (simp add: word_range_def word_interval_succ)

lemma word_range_0 [simp]: "word_range 0 = []"
  by (simp add: word_range_def)

lemma set_word_range: "ii \<in> set (word_range m) \<longleftrightarrow> ii < m" for ii m :: "'w::len word"
  by (simp add: word_range_def set_word_interval)

lemma first_slot_nat_unique:
  "first_slot_nat cs col lo hi p \<Longrightarrow> first_slot_nat cs col lo hi q \<Longrightarrow> p = q"
  unfolding first_slot_nat_def by (metis linorder_neqE_nat)

lemma first_slot_to_nat:
  fixes lo hi r :: "'w::len word"
  assumes "first_slot cs col lo hi r"
  shows "first_slot_nat cs col (unat lo) (unat hi) (unat r)"
proof -
  have "cs ! q \<noteq> col" if q: "unat lo \<le> q" "q < unat r" for q
  proof -
    have u: "unat (of_nat q :: 'w word) = q" using q(2) by (intro le_unat_uoi[of _ r]) simp
    then have "lo \<le> of_nat q \<and> of_nat q < r" using q by (simp add: word_le_nat_alt word_less_nat_alt)
    with assms have "cs ! unat (of_nat q :: 'w word) \<noteq> col" unfolding first_slot_def by blast
    then show ?thesis by (simp add: u)
  qed
  with assms show ?thesis
    by (auto simp: first_slot_def first_slot_nat_def word_le_nat_alt word_less_nat_alt)
qed

lemma first_slot_nat_present:
  fixes lo hi :: "'w::len word"
  assumes "first_slot_nat cs col (unat lo) (unat hi) p"
  shows "\<exists>q. lo \<le> q \<and> q < hi \<and> cs ! unat q = col"
proof -
  from assms have p: "unat lo \<le> p" "p < unat hi" "cs ! p = col" by (simp_all add: first_slot_nat_def)
  have u: "unat (of_nat p :: 'w word) = p" using p(2) by (intro le_unat_uoi[of _ hi]) simp
  with p show ?thesis
    by (intro exI[of _ "of_nat p"]) (simp add: word_le_nat_alt word_less_nat_alt)
qed

lemma add_values_col_spec:
  fixes A :: "('w::len, 'a::plus) BSRMat"
  assumes v: "valid_csr A" and jj: "unat jj < length j" and br: "br < nbrows A"
    and er: "er < M" and N: "N \<noteq> 0"
  shows "add_values_col M N j mat ii br er jj A =
    Some (set_cells A (\<lambda>p a b.
      if first_slot_nat (cols A) (j ! unat jj div N) (unat (rowp A ! unat br))
           (unat (rowp A ! unat (br + 1))) p \<and> a = unat er \<and> b = unat (j ! unat jj mod N)
      then cell (vals A) p a b + mat ii jj else cell (vals A) p a b))"
proof -
  let ?dj = "j ! unat jj"
  let ?bc = "?dj div N" and ?ec = "?dj mod N"
  note rr = row_range[OF v br]
  let ?lo = "rowp A ! unat br" and ?hi = "rowp A ! Suc (unat br)"
  have ecN: "?ec < N" using N by (simp add: word_less_nat_alt unat_mod unat_gt_0)
  from find_column_index_spec[OF v br, of ?bc]
  obtain r where r: "find_column_index A br ?bc = Some r"
    "if \<exists>p. ?lo \<le> p \<and> p < ?hi \<and> cols A ! unat p = ?bc
     then first_slot (cols A) ?bc ?lo ?hi r else r = MAX_INDEX" by blast
  have pre: "add_values_col M N j mat ii br er jj A =
     (if r \<noteq> MAX_INDEX
      then do {
        x \<leftarrow> vals_read M N (vals A) r er ?ec;
        v \<leftarrow> vals_write M N (vals A) r er ?ec (x + mat ii jj);
        Some (A\<lparr>vals := v\<rparr>) }
      else Some A)"
    using jj N r(1) by (simp add: add_values_col_def idx_get_def idx_div_def idx_mod_def)
  show ?thesis
  proof (cases "\<exists>p. ?lo \<le> p \<and> p < ?hi \<and> cols A ! unat p = ?bc")
    case True
    with r(2) have fs: "first_slot (cols A) ?bc ?lo ?hi r" by simp
    then have rhi: "r < ?hi" by (simp add: first_slot_def)
    then have ne: "r \<noteq> MAX_INDEX" by (rule less_not_MAX_INDEX)
    have "unat r < extent0 (vals A)"
      using rhi rr(4) v by (simp add: valid_csr_def word_less_nat_alt)
    then have inb: "vals_in M N (vals A) r er ?ec" using er ecN by (simp add: vals_in_def)
    have fsn: "first_slot_nat (cols A) ?bc (unat ?lo) (unat ?hi) p \<longleftrightarrow> p = unat r" for p
      using first_slot_to_nat[OF fs] first_slot_nat_unique[of "cols A" ?bc "unat ?lo" "unat ?hi" p "unat r"]
      by auto
    have "add_values_col M N j mat ii br er jj A =
      Some (set_cells A (\<lambda>p' i' j'. if p' = unat r \<and> i' = unat er \<and> j' = unat ?ec
         then cell (vals A) (unat r) (unat er) (unat ?ec) + mat ii jj else cell (vals A) p' i' j'))"
      unfolding pre using ne inb write_cell[OF inb] by (simp add: vals_read_def)
    also have "set_cells A (\<lambda>p' i' j'. if p' = unat r \<and> i' = unat er \<and> j' = unat ?ec
         then cell (vals A) (unat r) (unat er) (unat ?ec) + mat ii jj else cell (vals A) p' i' j')
       = set_cells A (\<lambda>p a b.
      if first_slot_nat (cols A) ?bc (unat ?lo) (unat (rowp A ! unat (br + 1))) p \<and>
         a = unat er \<and> b = unat ?ec
      then cell (vals A) p a b + mat ii jj else cell (vals A) p a b)"
      unfolding rr(1) by (rule set_cells_cong) (auto simp: fsn)
    finally show ?thesis .
  next
    case False
    with r(2) have "r = MAX_INDEX" by simp
    then have "add_values_col M N j mat ii br er jj A = Some A" unfolding pre by simp
    moreover have "\<not> first_slot_nat (cols A) ?bc (unat ?lo) (unat ?hi) p" for p
      using first_slot_nat_present[of "cols A" ?bc ?lo ?hi p] False by blast
    then have "set_cells A (\<lambda>p a b.
      if first_slot_nat (cols A) ?bc (unat ?lo) (unat (rowp A ! unat (br + 1))) p \<and>
         a = unat er \<and> b = unat ?ec
      then cell (vals A) p a b + mat ii jj else cell (vals A) p a b) = set_cells A (cell (vals A))"
      unfolding rr(1) by (intro set_cells_cong) simp
    ultimately show ?thesis by simp
  qed
qed

lemma hits_set_cells [simp]: "hits M N (set_cells A f) = hits M N A"
  by (intro ext) (simp add: hits_def)

lemma row_contributions_set_cells [simp]:
  "row_contributions M N (set_cells A f) = row_contributions M N A"
  by (intro ext) (simp add: row_contributions_def)

lemma contributions_set_cells [simp]:
  "contributions M N (set_cells A f) = contributions M N A"
  by (intro ext) (simp add: contributions_def)

lemma row_contributions_succ:
  fixes k n :: "'w::len word"
  assumes "k < n"
  shows "row_contributions M N A i (k + 1) j mat ii p a b =
     row_contributions M N A i k j mat ii p a b @
       (if hits M N A (i ! unat ii) (j ! unat k) p a b then [mat ii k] else [])"
  by (simp add: row_contributions_def word_range_succ[OF assms])

lemma contributions_succ:
  fixes k m :: "'w::len word"
  assumes "k < m"
  shows "contributions M N A (k + 1) i n j mat p a b =
     contributions M N A k i n j mat p a b @ row_contributions M N A i n j mat k p a b"
  by (simp add: contributions_def word_range_succ[OF assms])

lemma add_values_row_spec:
  fixes A :: "('w::len, 'a::plus) BSRMat"
  assumes v: "valid_csr A" and ii: "unat ii < length i" and n: "unat n \<le> length j"
    and r: "dof_in_range M (nbrows A) (i ! unat ii)" and N: "n = 0 \<or> N \<noteq> 0"
  shows "add_values_row M N i n j mat ii A =
    Some (set_cells A (\<lambda>p a b.
      foldl (+) (cell (vals A) p a b) (row_contributions M N A i n j mat ii p a b)))"
proof -
  let ?di = "i ! unat ii"
  let ?br = "?di div M" and ?er = "?di mod M"
  note dd = dof_in_rangeD[OF r]
  let ?S = "\<lambda>k :: 'w word. set_cells A (\<lambda>p a b.
      foldl (+) (cell (vals A) p a b) (row_contributions M N A i k j mat ii p a b))"
  have "\<exists>s'. for_loop 0 n (add_values_col M N j mat ii ?br ?er) A = Some s' \<and> s' = ?S n"
  proof (rule for_loop_total[where I = "\<lambda>k t. t = ?S k"])
    show "0 \<le> n" by simp
    show "A = ?S 0" by (simp add: row_contributions_def)
  next
    fix k t assume k: "0 \<le> k" "k < n" and t: "t = ?S k"
    have kj: "unat k < length j" using k(2) n by (simp add: word_less_nat_alt)
    have N0: "N \<noteq> 0" using N k(2) by auto
    have vt: "valid_csr t" "nbrows t = nbrows A" using v t by simp_all
    have "add_values_col M N j mat ii ?br ?er k t = Some (set_cells t (\<lambda>p a b.
      if first_slot_nat (cols t) (j ! unat k div N) (unat (rowp t ! unat ?br))
           (unat (rowp t ! unat (?br + 1))) p \<and> a = unat ?er \<and> b = unat (j ! unat k mod N)
      then cell (vals t) p a b + mat ii k else cell (vals t) p a b))"
      using dd(2,3) by (intro add_values_col_spec[OF vt(1) kj _ _ N0]) (simp_all add: vt(2))
    also have "set_cells t (\<lambda>p a b.
      if first_slot_nat (cols t) (j ! unat k div N) (unat (rowp t ! unat ?br))
           (unat (rowp t ! unat (?br + 1))) p \<and> a = unat ?er \<and> b = unat (j ! unat k mod N)
      then cell (vals t) p a b + mat ii k else cell (vals t) p a b) = ?S (k + 1)"
      unfolding t set_cells_simps
      by (rule set_cells_cong) (simp add: row_contributions_succ[OF k(2)] hits_def)
    finally show "\<exists>t'. add_values_col M N j mat ii ?br ?er k t = Some t' \<and> t' = ?S (k + 1)"
      by simp
  qed
  then show ?thesis
    using ii dd(1) by (simp add: add_values_row_def idx_get_def idx_div_def idx_mod_def)
qed

lemma add_values_spec:
  fixes A :: "('w::len, 'a::plus) BSRMat"
  assumes v: "valid_csr A" and m: "unat m \<le> length i" and n: "unat n \<le> length j"
    and r: "\<forall>ii < unat m. dof_in_range M (nbrows A) (i ! ii)" and N: "n = 0 \<or> N \<noteq> 0"
  shows "add_values M N m i n j mat A =
    Some (set_cells A (\<lambda>p a b.
      foldl (+) (cell (vals A) p a b) (contributions M N A m i n j mat p a b)))"
proof -
  let ?S = "\<lambda>k :: 'w word. set_cells A (\<lambda>p a b.
      foldl (+) (cell (vals A) p a b) (contributions M N A k i n j mat p a b))"
  have "\<exists>s'. for_loop 0 m (add_values_row M N i n j mat) A = Some s' \<and> s' = ?S m"
  proof (rule for_loop_total[where I = "\<lambda>k t. t = ?S k"])
    show "0 \<le> m" by simp
    show "A = ?S 0" by (simp add: contributions_def)
  next
    fix k t assume k: "0 \<le> k" "k < m" and t: "t = ?S k"
    have km: "unat k < unat m" using k(2) by (simp add: word_less_nat_alt)
    have vt: "valid_csr t" "nbrows t = nbrows A" using v t by simp_all
    have "add_values_row M N i n j mat k t = Some (set_cells t (\<lambda>p a b.
      foldl (+) (cell (vals t) p a b) (row_contributions M N t i n j mat k p a b)))"
      using km m r by (intro add_values_row_spec[OF vt(1) _ n _ N]) (simp_all add: vt(2))
    also have "set_cells t (\<lambda>p a b.
      foldl (+) (cell (vals t) p a b) (row_contributions M N t i n j mat k p a b)) = ?S (k + 1)"
      unfolding t set_cells_simps row_contributions_set_cells
      by (rule set_cells_cong) (simp add: contributions_succ[OF k(2)])
    finally show "\<exists>t'. add_values_row M N i n j mat k t = Some t' \<and> t' = ?S (k + 1)"
      by simp
  qed
  then show ?thesis by (simp add: add_values_def)
qed

lemma hits_present: "hits M N A di dj p a b \<Longrightarrow> block_present M N A di dj"
  unfolding hits_def block_present_def first_slot_nat_def by blast

lemma find_column_index_set_cells [simp]:
  "find_column_index (set_cells A f) = find_column_index A"
  by (intro ext) (simp add: find_column_index_def)

lemma zero_set_cells: "zero A = set_cells A (\<lambda>p i j. 0)"
  by (simp add: zero_def BLAS_zero_def set_cells_def)

lemma contributions_cong:
  fixes m n :: "'w::len word"
  assumes "\<And>ii jj. ii < m \<Longrightarrow> jj < n \<Longrightarrow> block_present M N A (i ! unat ii) (j ! unat jj) \<Longrightarrow>
      mat' ii jj = mat ii jj"
  shows "contributions M N A m i n j mat' p a b = contributions M N A m i n j mat p a b"
  unfolding contributions_def row_contributions_def
  by (intro arg_cong[where f = concat] map_cong refl)
     (auto simp: set_word_range dest: hits_present assms)

lemma contributions_absent:
  fixes m n :: "'w::len word"
  assumes "\<And>ii jj. ii < m \<Longrightarrow> jj < n \<Longrightarrow> \<not> block_present M N A (i ! unat ii) (j ! unat jj)"
  shows "contributions M N A m i n j mat p a b = []"
  unfolding contributions_def row_contributions_def
  using assms by (auto simp: set_word_range dest: hits_present)

lemma word_range_numeral:
  "word_range (1 :: 32 word) = [0]" "word_range (2 :: 32 word) = [0, 1]"
  by (simp_all add: word_range_def word_interval_def upt_rec)

lemma example_local_contributions:
  "contributions 2 2 example_mat 2 [0, 0] 1 [0] example_local 0 0 0 = [5, 5]"
  "contributions 2 2 example_mat 2 [0, 0] 1 [0] example_local 0 0 (Suc 0) = []"
  by (simp_all add: contributions_def row_contributions_def word_range_numeral hits_def
      first_slot_nat_def example_mat_simps example_local_def)

lemma mixed_local_contributions:
  "contributions 2 2 example_mat 1 [0] 2 [2, 0] mixed_local 0 0 0 = [5]"
  "contributions 2 2 example_mat 1 [0] 2 [2, 0] mixed_local 0 0 (Suc 0) = []"
  "contributions 2 2 example_mat 1 [0] 2 [2, 0] mixed_local 0 (Suc 0) 0 = []"
  "contributions 2 2 example_mat 1 [0] 2 [2, 0] mixed_local (Suc 0) 0 0 = []"
  by (simp_all add: contributions_def row_contributions_def word_range_numeral hits_def
      first_slot_nat_def example_mat_simps mixed_local_def)

lemma first_slot_nat_ex:
  assumes "lo \<le> p" and "p < hi" and "cs ! p = col"
  shows "\<exists>q. first_slot_nat cs col lo hi q"
proof -
  let ?P = "\<lambda>q. lo \<le> q \<and> q < hi \<and> cs ! q = col"
  let ?q = "LEAST q. ?P q"
  have "?P p" using assms by simp
  then have q: "?P ?q" by (rule LeastI)
  have "cs ! r \<noteq> col" if r: "lo \<le> r" "r < ?q" for r
  proof
    assume "cs ! r = col"
    with r q have "?P r" by simp
    then have "?q \<le> r" by (rule Least_le)
    with r(2) show False by simp
  qed
  with q show ?thesis unfolding first_slot_nat_def by blast
qed

lemma block_present_hits:
  "block_present M N A di dj \<longleftrightarrow> (\<exists>p a b. hits M N A di dj p a b)"
proof
  assume "block_present M N A di dj"
  then obtain p where "unat (rowp A ! unat (di div M)) \<le> p"
    "p < unat (rowp A ! unat (di div M + 1))" "cols A ! p = dj div N"
    unfolding block_present_def by blast
  from first_slot_nat_ex[OF this] show "\<exists>p a b. hits M N A di dj p a b"
    unfolding hits_def by blast
next
  assume "\<exists>p a b. hits M N A di dj p a b"
  then show "block_present M N A di dj" by (blast dest: hits_present)
qed

lemma valid_dup_mat: "valid_csr dup_mat"
  by (simp add: valid_csr_def dup_mat_def all_less_numeral)

lemma dup_mat_simps:
  "nbrows dup_mat = 1" "nbcols dup_mat = 1" "nnz dup_mat = 2"
  "rowp dup_mat = [0, 2]" "cols dup_mat = [0, 0]"
  "extent0 (vals dup_mat) = 2"
  "cell (vals dup_mat) p i j = real (10 + p)"
  by (simp_all add: dup_mat_def)

subsection \<open>Export\<close>

lemma less_MAX_INDEX: "x \<le> unat (MAX_INDEX :: 'w::len word) \<longleftrightarrow> x < 2 ^ LENGTH('w)"
proof -
  have "unat (MAX_INDEX :: 'w word) = 2 ^ LENGTH('w) - 1"
    by (simp add: MAX_INDEX_def unsigned_minus_1_eq_mask mask_eq_exp_minus_1)
  moreover have "(0 :: nat) < 2 ^ LENGTH('w)" by simp
  ultimately show ?thesis by linarith
qed

lemma block_offset_less: "r < R \<Longrightarrow> a < B \<Longrightarrow> B * r + a < B * R" for r R a B :: nat
proof -
  assume "r < R" "a < B"
  then have "B * r + a < B * Suc r" by simp
  also have "\<dots> \<le> B * R" using \<open>r < R\<close> by (intro mult_le_mono2) simp
  finally show ?thesis .
qed

lemma block_offset_inj:
  fixes B :: nat
  assumes "a < B" and "a' < B" and "B * r + a = B * r' + a'"
  shows "r = r' \<and> a = a'"
proof -
  have "(B * r + a) div B = r" "(B * r + a) mod B = a" using assms(1) by simp_all
  moreover have "(B * r' + a') div B = r'" "(B * r' + a') mod B = a'" using assms(2) by simp_all
  ultimately show ?thesis using assms(3) by metis
qed

lemma covered_col:
  assumes "valid_csr A" and "covered M N A r p ii jj"
  shows "p < unat (nnz A)" and "unat (cols A ! p) < unat (nbcols A)"
proof -
  from assms(2) have r: "r < unat (nbrows A)" and p: "p < unat (rowp A ! Suc r)"
    by (simp_all add: covered_def)
  have "rowp A ! Suc r \<le> rowp A ! unat (nbrows A)"
    using r by (intro rowp_mono[OF assms(1)]) simp_all
  then show "p < unat (nnz A)" using p assms(1) by (simp add: valid_csr_def word_le_nat_alt)
  then show "unat (cols A ! p) < unat (nbcols A)"
    using assms(1) by (simp add: valid_csr_def word_less_nat_alt)
qed

lemma dense_index_bounds:
  assumes "valid_csr A" and "covered M N A r p ii jj"
  shows "unat M * r + ii < unat M * unat (nbrows A)"
    and "unat N * unat (cols A ! p) + jj < unat N * unat (nbcols A)"
    and "dense_index M N A r p ii jj < unat M * unat (nbrows A) * (unat N * unat (nbcols A))"
proof -
  from assms(2) have c: "r < unat (nbrows A)" "ii < unat M" "jj < unat N"
    by (simp_all add: covered_def)
  show 1: "unat M * r + ii < unat M * unat (nbrows A)"
    using c by (intro block_offset_less)
  show 2: "unat N * unat (cols A ! p) + jj < unat N * unat (nbcols A)"
    using c covered_col(2)[OF assms] by (intro block_offset_less)
  have "dense_index M N A r p ii jj < unat N * unat (nbcols A) * (unat M * unat (nbrows A))"
    unfolding dense_index_def by (rule block_offset_less[OF 1 2])
  then show "dense_index M N A r p ii jj < unat M * unat (nbrows A) * (unat N * unat (nbcols A))"
    by (simp add: mult.commute)
qed

lemma dense_index_inj:
  assumes v: "valid_csr A" and d: "duplicate_free A"
    and c: "covered M N A r p ii jj" and c': "covered M N A r' p' ii' jj'"
    and e: "dense_index M N A r p ii jj = dense_index M N A r' p' ii' jj'"
  shows "r = r' \<and> p = p' \<and> ii = ii' \<and> jj = jj'"
proof -
  note b = dense_index_bounds[OF v c] and b' = dense_index_bounds[OF v c']
  from block_offset_inj[OF b(2) b'(2) e[unfolded dense_index_def]]
  have 1: "unat M * r + ii = unat M * r' + ii'"
    and 2: "unat N * unat (cols A ! p) + jj = unat N * unat (cols A ! p') + jj'" by simp_all
  from c c' have o: "ii < unat M" "ii' < unat M" "jj < unat N" "jj' < unat N"
    by (simp_all add: covered_def)
  from block_offset_inj[OF o(1,2) 1] have r: "r = r'" "ii = ii'" by simp_all
  from block_offset_inj[OF o(3,4) 2] have q: "cols A ! p = cols A ! p'" "jj = jj'"
    by (simp_all add: word_unat_eq_iff)
  have "p = p'"
  proof (rule ccontr)
    assume "p \<noteq> p'"
    then consider "p < p'" | "p' < p" by linarith
    then show False
      using d c c' q(1) r(1) unfolding duplicate_free_def covered_def by cases metis+
  qed
  with r q show ?thesis by simp
qed

lemma dense_index_word:
  fixes M N i ii jj jp :: "'w::len word"
  assumes v: "valid_csr A" and f: "dense_fits M N A"
    and c: "covered M N A (unat i) (unat jp) (unat ii) (unat jj)"
  shows "unat (N * nbcols A * (M * i + ii) + (N * (cols A ! unat jp) + jj)) =
      dense_index M N A (unat i) (unat jp) (unat ii) (unat jj)"
    and "unat (N * nbcols A) = unat N * unat (nbcols A)"
    and "unat (M * nbrows A) = unat M * unat (nbrows A)"
    and "unat (M * nbrows A * (N * nbcols A)) = unat M * unat (nbrows A) * (unat N * unat (nbcols A))"
    and "unat (M * i + ii + 1) = Suc (unat M * unat i + unat ii)"
    and "unat (N * (cols A ! unat jp) + jj + 1) = Suc (unat N * unat (cols A ! unat jp) + unat jj)"
proof -
  note b = dense_index_bounds[OF v c]
  from f have F: "unat M * unat (nbrows A) < 2 ^ LENGTH('w)"
    "unat N * unat (nbcols A) < 2 ^ LENGTH('w)"
    "unat M * unat (nbrows A) * (unat N * unat (nbcols A)) < 2 ^ LENGTH('w)"
    by (simp_all add: dense_fits_def less_MAX_INDEX)
  show n: "unat (N * nbcols A) = unat N * unat (nbcols A)"
    using F(2) by (simp add: unat_mult_lem)
  show m: "unat (M * nbrows A) = unat M * unat (nbrows A)"
    using F(1) by (simp add: unat_mult_lem)
  show "unat (M * nbrows A * (N * nbcols A)) = unat M * unat (nbrows A) * (unat N * unat (nbcols A))"
    using F(3) by (simp add: unat_mult_lem[THEN iffD1] m n)
  have mi: "unat (M * i) = unat M * unat i"
    using b(1) F(1) by (intro unat_mult_lem[THEN iffD1]) simp
  have irow: "unat (M * i + ii) = unat M * unat i + unat ii"
    using b(1) F(1) by (intro unat_add_lem[THEN iffD1, THEN trans]) (simp_all add: mi)
  have nj: "unat (N * (cols A ! unat jp)) = unat N * unat (cols A ! unat jp)"
    using b(2) F(2) by (intro unat_mult_lem[THEN iffD1]) simp
  have jcol: "unat (N * (cols A ! unat jp) + jj) = unat N * unat (cols A ! unat jp) + unat jj"
    using b(2) F(2) by (intro unat_add_lem[THEN iffD1, THEN trans]) (simp_all add: nj)
  have d: "dense_index M N A (unat i) (unat jp) (unat ii) (unat jj) < 2 ^ LENGTH('w)"
    using b(3) F(3) by simp
  have ni: "unat (N * nbcols A * (M * i + ii)) = unat N * unat (nbcols A) * (unat M * unat i + unat ii)"
    using d unfolding dense_index_def
    by (intro unat_mult_lem[THEN iffD1, THEN trans]) (simp_all add: n irow)
  show "unat (N * nbcols A * (M * i + ii) + (N * (cols A ! unat jp) + jj)) =
      dense_index M N A (unat i) (unat jp) (unat ii) (unat jj)"
    using d unfolding dense_index_def
    by (intro unat_add_lem[THEN iffD1, THEN trans]) (simp_all add: ni jcol)
  show "unat (M * i + ii + 1) = Suc (unat M * unat i + unat ii)"
    using b(1) F(1) by (intro unat_add_lem[THEN iffD1, THEN trans]) (simp_all add: irow)
  show "unat (N * (cols A ! unat jp) + jj + 1) = Suc (unat N * unat (cols A ! unat jp) + unat jj)"
    using b(2) F(2) by (intro unat_add_lem[THEN iffD1, THEN trans]) (simp_all add: jcol)
qed

lemma dense_inv_step:
  assumes v: "valid_csr A" and d: "duplicate_free A" and inv: "dense_inv M N A W buf"
    and c: "covered M N A r p ii jj"
  shows "dense_inv M N A (insert (r, p, ii, jj) W)
           (buf[dense_index M N A r p ii jj := cell (vals A) p ii jj])"
proof -
  let ?q = "dense_index M N A r p ii jj"
  let ?buf = "buf[?q := cell (vals A) p ii jj]"
  from inv have len: "length buf = unat M * unat (nbrows A) * (unat N * unat (nbcols A))"
    by (simp add: dense_inv_def)
  have q: "?q < length buf" using dense_index_bounds(3)[OF v c] len by simp
  have 1: "covered M N A r' p' ii' jj' \<and>
      ?buf ! dense_index M N A r' p' ii' jj' = cell (vals A) p' ii' jj'"
    if t: "(r', p', ii', jj') \<in> insert (r, p, ii, jj) W" for r' p' ii' jj'
  proof (cases "dense_index M N A r' p' ii' jj' = ?q")
    case True
    have c': "covered M N A r' p' ii' jj'" using t c inv by (auto simp: dense_inv_def)
    from dense_index_inj[OF v d c' c True] show ?thesis using q c by simp
  next
    case False
    then have "(r', p', ii', jj') \<in> W" using t by auto
    with inv False show ?thesis by (simp add: dense_inv_def)
  qed
  have 2: "?buf ! x = 0"
    if "x < length ?buf"
      "\<forall>r' p' ii' jj'. (r', p', ii', jj') \<in> insert (r, p, ii, jj) W \<longrightarrow>
         x \<noteq> dense_index M N A r' p' ii' jj'" for x
  proof -
    from that(2) have "x \<noteq> ?q" by blast
    moreover have "buf ! x = 0" using inv that by (simp add: dense_inv_def)
    ultimately show ?thesis by simp
  qed
  show ?thesis unfolding dense_inv_def using len 1 2 by (intro conjI allI impI) simp_all
qed

lemma to_dense_jj_loop:
  fixes A :: "('w::len, 'a::zero) BSRMat"
  assumes v: "valid_csr A" and d: "duplicate_free A" and f: "dense_fits M N A"
    and inv: "dense_inv M N A W buf"
    and i: "unat i < unat (nbrows A)"
    and jp: "unat (rowp A ! unat i) \<le> unat jp" "unat jp < unat (rowp A ! Suc (unat i))"
    and ii: "ii < M"
  shows "\<exists>buf'. for_loop 0 N
           (to_dense_jj M N A (N * nbcols A) jp (cols A ! unat jp) ii (M * i + ii)) buf = Some buf' \<and>
         dense_inv M N A (W \<union> {(unat i, unat jp, unat ii, jj) | jj. jj < unat N}) buf'"
proof (rule for_loop_total[where I = "\<lambda>k t.
    dense_inv M N A (W \<union> {(unat i, unat jp, unat ii, jj) | jj. jj < unat k}) t"])
  show "0 \<le> N" by simp
  show "dense_inv M N A (W \<union> {(unat i, unat jp, unat ii, jj) | jj. jj < unat (0 :: 'w word)}) buf"
    using inv by simp
next
  fix k t
  assume k: "0 \<le> k" "k < N"
    and t: "dense_inv M N A (W \<union> {(unat i, unat jp, unat ii, jj) | jj. jj < unat k}) t"
  have s: "unat (k + 1) = Suc (unat k)" using k(2) by (rule unat_succ)
  have c: "covered M N A (unat i) (unat jp) (unat ii) (unat k)"
    using i jp ii k(2) by (simp add: covered_def word_less_nat_alt)
  have "unat jp < extent0 (vals A)" using covered_col(1)[OF v c] v by (simp add: valid_csr_def)
  then have rd: "vals_read M N (vals A) jp ii k = Some (cell (vals A) (unat jp) (unat ii) (unat k))"
    using ii k(2) by (simp add: vals_read_def vals_in_def)
  note w = dense_index_word(1)[OF v f c]
  have len: "length t = unat M * unat (nbrows A) * (unat N * unat (nbcols A))"
    using t by (simp add: dense_inv_def)
  have q: "dense_index M N A (unat i) (unat jp) (unat ii) (unat k) < length t"
    using dense_index_bounds(3)[OF v c] len by simp
  have run: "to_dense_jj M N A (N * nbcols A) jp (cols A ! unat jp) ii (M * i + ii) k t =
      Some (t[dense_index M N A (unat i) (unat jp) (unat ii) (unat k) :=
              cell (vals A) (unat jp) (unat ii) (unat k)])"
    using q by (simp add: to_dense_jj_def rd idx_set_def w)
  have e: "insert (unat i, unat jp, unat ii, unat k)
        (W \<union> {(unat i, unat jp, unat ii, jj) | jj. jj < unat k}) =
      W \<union> {(unat i, unat jp, unat ii, jj) | jj. jj < unat (k + 1)}"
    unfolding s by (auto simp: less_Suc_eq)
  from dense_inv_step[OF v d t c] run e
  show "\<exists>t'. to_dense_jj M N A (N * nbcols A) jp (cols A ! unat jp) ii (M * i + ii) k t = Some t' \<and>
      dense_inv M N A (W \<union> {(unat i, unat jp, unat ii, jj) | jj. jj < unat (k + 1)}) t'"
    by simp
qed

lemma to_dense_ii_loop:
  fixes A :: "('w::len, 'a::zero) BSRMat"
  assumes v: "valid_csr A" and d: "duplicate_free A" and f: "dense_fits M N A"
    and inv: "dense_inv M N A W buf"
    and i: "unat i < unat (nbrows A)"
    and jp: "unat (rowp A ! unat i) \<le> unat jp" "unat jp < unat (rowp A ! Suc (unat i))"
  shows "\<exists>buf'. for_loop 0 M
           (to_dense_ii M N A (N * nbcols A) i jp (cols A ! unat jp)) buf = Some buf' \<and>
         dense_inv M N A (W \<union> {(unat i, unat jp, ii, jj) | ii jj. ii < unat M \<and> jj < unat N}) buf'"
proof (rule for_loop_total[where I = "\<lambda>k t.
    dense_inv M N A (W \<union> {(unat i, unat jp, ii, jj) | ii jj. ii < unat k \<and> jj < unat N}) t"])
  show "0 \<le> M" by simp
  show "dense_inv M N A
      (W \<union> {(unat i, unat jp, ii, jj) | ii jj. ii < unat (0 :: 'w word) \<and> jj < unat N}) buf"
    using inv by simp
next
  fix k t
  assume k: "0 \<le> k" "k < M"
    and t: "dense_inv M N A (W \<union> {(unat i, unat jp, ii, jj) | ii jj. ii < unat k \<and> jj < unat N}) t"
  have s: "unat (k + 1) = Suc (unat k)" using k(2) by (rule unat_succ)
  have e: "W \<union> {(unat i, unat jp, ii, jj) | ii jj. ii < unat k \<and> jj < unat N} \<union>
        {(unat i, unat jp, unat k, jj) | jj. jj < unat N} =
      W \<union> {(unat i, unat jp, ii, jj) | ii jj. ii < unat (k + 1) \<and> jj < unat N}"
    unfolding s by (auto simp: less_Suc_eq)
  from to_dense_jj_loop[OF v d f t i jp k(2)] e
  show "\<exists>t'. to_dense_ii M N A (N * nbcols A) i jp (cols A ! unat jp) k t = Some t' \<and>
      dense_inv M N A (W \<union> {(unat i, unat jp, ii, jj) | ii jj. ii < unat (k + 1) \<and> jj < unat N}) t'"
    by (simp add: to_dense_ii_def)
qed

lemma to_dense_jp_loop:
  fixes A :: "('w::len, 'a::zero) BSRMat"
  assumes v: "valid_csr A" and d: "duplicate_free A" and f: "dense_fits M N A"
    and inv: "dense_inv M N A W buf"
    and i: "i < nbrows A"
  shows "\<exists>buf'. to_dense_i M N A (N * nbcols A) i buf = Some buf' \<and>
         dense_inv M N A (W \<union> {(unat i, p, ii, jj) | p ii jj.
            unat (rowp A ! unat i) \<le> p \<and> p < unat (rowp A ! Suc (unat i)) \<and>
            ii < unat M \<and> jj < unat N}) buf'"
proof -
  note rr = row_range[OF v i]
  let ?lo = "rowp A ! unat i" and ?hi = "rowp A ! Suc (unat i)"
  have iu: "unat i < unat (nbrows A)" using i by (simp add: word_less_nat_alt)
  let ?S = "\<lambda>k. W \<union> {(unat i, p, ii, jj) | p ii jj.
            unat ?lo \<le> p \<and> p < k \<and> ii < unat M \<and> jj < unat N}"
  have "\<exists>buf'. for_loop ?lo ?hi (to_dense_jp M N A (N * nbcols A) i) buf = Some buf' \<and>
      dense_inv M N A (?S (unat ?hi)) buf'"
  proof (rule for_loop_total[where I = "\<lambda>k t. dense_inv M N A (?S (unat k)) t"])
    show "?lo \<le> ?hi" by (rule rr(3))
    have "?S (unat ?lo) = W" by auto
    then show "dense_inv M N A (?S (unat ?lo)) buf" using inv by simp
  next
    fix k t
    assume k: "?lo \<le> k" "k < ?hi" and t: "dense_inv M N A (?S (unat k)) t"
    have s: "unat (k + 1) = Suc (unat k)" using k(2) by (rule unat_succ)
    have ku: "unat ?lo \<le> unat k" "unat k < unat ?hi"
      using k by (simp_all add: word_le_nat_alt word_less_nat_alt)
    have g: "idx_get (cols A) k = Some (cols A ! unat k)"
      using ku(2) rr(4) by (simp add: idx_get_def)
    have e: "?S (unat k) \<union> {(unat i, unat k, ii, jj) | ii jj. ii < unat M \<and> jj < unat N} =
        ?S (unat (k + 1))"
      unfolding s using ku(1) by (auto simp: less_Suc_eq)
    from to_dense_ii_loop[OF v d f t iu ku] e
    show "\<exists>t'. to_dense_jp M N A (N * nbcols A) i k t = Some t' \<and>
        dense_inv M N A (?S (unat (k + 1))) t'"
      by (simp add: to_dense_jp_def g)
  qed
  then show ?thesis
    using rr(1,2) by (simp add: to_dense_i_def idx_get_def)
qed

lemma to_dense_i_loop:
  fixes A :: "('w::len, 'a::zero) BSRMat"
  assumes v: "valid_csr A" and d: "duplicate_free A" and f: "dense_fits M N A"
  shows "\<exists>buf'. for_loop 0 (nbrows A) (to_dense_i M N A (N * nbcols A))
           (replicate (unat (M * nbrows A * (N * nbcols A))) 0) = Some buf' \<and>
         dense_inv M N A {(r, p, ii, jj). covered M N A r p ii jj} buf'"
proof -
  let ?S = "\<lambda>k. {(r, p, ii, jj). covered M N A r p ii jj \<and> r < k}"
  let ?buf = "replicate (unat (M * nbrows A * (N * nbcols A))) (0 :: 'a)"
  have len: "unat (M * nbrows A * (N * nbcols A)) =
      unat M * unat (nbrows A) * (unat N * unat (nbcols A))"
    using f by (simp add: dense_fits_def less_MAX_INDEX unat_mult_lem[THEN iffD1])
  have "\<exists>buf'. for_loop 0 (nbrows A) (to_dense_i M N A (N * nbcols A)) ?buf = Some buf' \<and>
      dense_inv M N A (?S (unat (nbrows A))) buf'"
  proof (rule for_loop_total[where I = "\<lambda>k t. dense_inv M N A (?S (unat k)) t"])
    show "0 \<le> nbrows A" by simp
    show "dense_inv M N A (?S (unat (0 :: 'w word))) ?buf"
      by (simp add: dense_inv_def len)
  next
    fix k t
    assume k: "0 \<le> k" "k < nbrows A" and t: "dense_inv M N A (?S (unat k)) t"
    have s: "unat (k + 1) = Suc (unat k)" using k(2) by (rule unat_succ)
    have ku: "unat k < unat (nbrows A)" using k(2) by (simp add: word_less_nat_alt)
    have e: "?S (unat k) \<union> {(unat k, p, ii, jj) | p ii jj.
            unat (rowp A ! unat k) \<le> p \<and> p < unat (rowp A ! Suc (unat k)) \<and>
            ii < unat M \<and> jj < unat N} = ?S (unat (k + 1))"
      unfolding s using ku by (auto simp: less_Suc_eq covered_def)
    from to_dense_jp_loop[OF v d f t k(2)] e
    show "\<exists>t'. to_dense_i M N A (N * nbcols A) k t = Some t' \<and>
        dense_inv M N A (?S (unat (k + 1))) t'"
      by simp
  qed
  moreover have "?S (unat (nbrows A)) = {(r, p, ii, jj). covered M N A r p ii jj}"
    by (auto simp: covered_def)
  ultimately show ?thesis by simp
qed

lemma for_loop_append:
  fixes lo hi :: "'w::len word"
  assumes "lo \<le> hi" and "\<And>k fp. lo \<le> k \<Longrightarrow> k < hi \<Longrightarrow> body k fp = Some (fp @ g k)"
  shows "for_loop lo hi body fp = Some (fp @ concat (map g (word_interval lo hi)))"
proof -
  have "\<exists>s'. for_loop lo hi body fp = Some s' \<and> s' = fp @ concat (map g (word_interval lo hi))"
  proof (rule for_loop_total[where I = "\<lambda>k t. t = fp @ concat (map g (word_interval lo k))"])
    show "lo \<le> hi" by fact
    show "fp = fp @ concat (map g (word_interval lo lo))" by simp
  next
    fix k t assume "lo \<le> k" "k < hi" "t = fp @ concat (map g (word_interval lo k))"
    then show "\<exists>t'. body k t = Some t' \<and> t' = fp @ concat (map g (word_interval lo (k + 1)))"
      by (simp add: assms(2) word_interval_succ)
  qed
  then show ?thesis by simp
qed

lemma write_mtx_rows:
  fixes A :: "('w::len, 'a) BSRMat"
  assumes v: "valid_csr A"
  shows "for_loop 0 (nbrows A) (write_mtx_i M N A) fp0 = Some (fp0 @ mtx_entries M N A)"
  unfolding mtx_entries_def
proof (rule for_loop_append)
  show "0 \<le> nbrows A" by simp
next
  fix i fp assume i: "0 \<le> i" "i < nbrows A"
  note rr = row_range[OF v i(2)]
  have "for_loop (rowp A ! unat i) (rowp A ! unat (i + 1)) (write_mtx_jp M N A i) fp =
      Some (fp @ mtx_row_lines M N A i)"
    unfolding mtx_row_lines_def
  proof (rule for_loop_append)
    show "rowp A ! unat i \<le> rowp A ! unat (i + 1)" using rr(1,3) by simp
  next
    fix jp fp assume jp: "rowp A ! unat i \<le> jp" "jp < rowp A ! unat (i + 1)"
    have ju: "unat jp < length (cols A)"
      using jp(2) rr(1,4) by (simp add: word_less_nat_alt)
    then have ext: "unat jp < extent0 (vals A)" using v by (simp add: valid_csr_def)
    have "for_loop 0 M (write_mtx_ii M N A i jp (cols A ! unat jp)) fp =
        Some (fp @ mtx_block_lines M N A i jp)"
      unfolding mtx_block_lines_def
    proof (rule for_loop_append)
      show "0 \<le> M" by simp
    next
      fix ii fp assume ii: "0 \<le> ii" "ii < M"
      have "for_loop 0 N (write_mtx_jj M N A jp (cols A ! unat jp) ii (M * i + ii + 1)) fp =
          Some (fp @ concat (map (\<lambda>jj. [mtx_entry M N A i jp ii jj]) (word_interval 0 N)))"
      proof (rule for_loop_append)
        show "0 \<le> N" by simp
      next
        fix jj fp assume jj: "0 \<le> jj" "jj < N"
        show "write_mtx_jj M N A jp (cols A ! unat jp) ii (M * i + ii + 1) jj fp =
            Some (fp @ [mtx_entry M N A i jp ii jj])"
          using ext ii(2) jj(2)
          by (simp add: write_mtx_jj_def vals_read_def vals_in_def mtx_entry_def)
      qed
      moreover have "concat (map (\<lambda>jj. [mtx_entry M N A i jp ii jj]) (word_interval 0 N)) =
          map (mtx_entry M N A i jp ii) (word_interval 0 N)"
        by (induction "word_interval 0 N") simp_all
      ultimately show "write_mtx_ii M N A i jp (cols A ! unat jp) ii fp =
          Some (fp @ map (mtx_entry M N A i jp ii) (word_interval 0 N))"
        by (simp add: write_mtx_ii_def)
    qed
    then show "write_mtx_jp M N A i jp fp = Some (fp @ mtx_block_lines M N A i jp)"
      using ju by (simp add: write_mtx_jp_def idx_get_def)
  qed
  then show "write_mtx_i M N A i fp = Some (fp @ mtx_row_lines M N A i)"
    using rr(1,2) by (simp add: write_mtx_i_def idx_get_def)
qed

lemma write_mtx_spec:
  fixes A :: "('w::len, 'a) BSRMat"
  assumes v: "valid_csr A"
  shows "write_mtx M N True A =
    Some ([Header ''%%MatrixMarket matrix coordinate real general'',
           Size_line (print_d (nbrows A * M)) (print_d (nbcols A * N)) (print_d (nnz A * M * N))] @
          mtx_entries M N A)"
  by (simp add: write_mtx_def fopen_w_def write_mtx_rows[OF v])

lemma write_mtx_not_opened: "write_mtx M N False A = None"
  by (simp add: write_mtx_def fopen_w_def)

lemma mtx_entries_set:
  fixes A :: "('w::len, 'a) BSRMat"
  shows "e \<in> set (mtx_entries M N A) \<longleftrightarrow>
    (\<exists>i jp ii jj. i < nbrows A \<and> rowp A ! unat i \<le> jp \<and> jp < rowp A ! unat (i + 1) \<and>
       ii < M \<and> jj < N \<and> e = mtx_entry M N A i jp ii jj)"
proof
  assume "e \<in> set (mtx_entries M N A)"
  then obtain i jp ii jj where "i \<in> set (word_interval 0 (nbrows A))"
    "jp \<in> set (word_interval (rowp A ! unat i) (rowp A ! unat (i + 1)))"
    "ii \<in> set (word_interval 0 M)" "jj \<in> set (word_interval 0 N)"
    "e = mtx_entry M N A i jp ii jj"
    unfolding mtx_entries_def mtx_row_lines_def mtx_block_lines_def by auto
  then have "i < nbrows A \<and> rowp A ! unat i \<le> jp \<and> jp < rowp A ! unat (i + 1) \<and>
       ii < M \<and> jj < N \<and> e = mtx_entry M N A i jp ii jj"
    by (simp add: set_word_interval)
  then show "\<exists>i jp ii jj. i < nbrows A \<and> rowp A ! unat i \<le> jp \<and> jp < rowp A ! unat (i + 1) \<and>
       ii < M \<and> jj < N \<and> e = mtx_entry M N A i jp ii jj" by (intro exI)
next
  assume "\<exists>i jp ii jj. i < nbrows A \<and> rowp A ! unat i \<le> jp \<and> jp < rowp A ! unat (i + 1) \<and>
       ii < M \<and> jj < N \<and> e = mtx_entry M N A i jp ii jj"
  then obtain i jp ii jj where a: "i < nbrows A" "rowp A ! unat i \<le> jp"
    "jp < rowp A ! unat (i + 1)" "ii < M" "jj < N" and e: "e = mtx_entry M N A i jp ii jj"
    by (elim exE conjE)
  have 1: "e \<in> set (map (mtx_entry M N A i jp ii) (word_interval 0 N))"
    using a(5) e by (simp add: set_word_interval)
  have 2: "e \<in> set (mtx_block_lines M N A i jp)"
    unfolding mtx_block_lines_def using 1 a(4)
    by (auto simp: set_word_interval Bex_def)
  have 3: "e \<in> set (mtx_row_lines M N A i)"
    unfolding mtx_row_lines_def using 2 a(2,3)
    by (auto simp: set_word_interval Bex_def)
  show "e \<in> set (mtx_entries M N A)"
    unfolding mtx_entries_def using 3 a(1)
    by (auto simp: set_word_interval Bex_def)
qed

lemma length_mtx_block_lines [simp]:
  "length (mtx_block_lines M N A i jp) = unat M * unat N"
  by (simp add: mtx_block_lines_def length_concat comp_def sum_list_triv)

lemma length_mtx_row_lines [simp]:
  "length (mtx_row_lines M N A i) =
     (unat (rowp A ! unat (i + 1)) - unat (rowp A ! unat i)) * (unat M * unat N)"
  by (simp add: mtx_row_lines_def length_concat comp_def sum_list_triv)

lemma length_mtx_prefix:
  fixes A :: "('w::len, 'a) BSRMat"
  assumes v: "valid_csr A" and k: "k \<le> unat (nbrows A)"
  shows "length (concat (map (mtx_row_lines M N A) (map of_nat [0 ..< k]))) =
     unat (rowp A ! k) * (unat M * unat N)"
  using k
proof (induction k)
  case 0
  then show ?case using v by (simp add: valid_csr_def)
next
  case (Suc k)
  then have kn: "k < unat (nbrows A)" by simp
  have u: "unat (of_nat k :: 'w word) = k" using kn by (intro le_unat_uoi[of _ "nbrows A"]) simp
  then have lt: "(of_nat k :: 'w word) < nbrows A" using kn by (simp add: word_less_nat_alt)
  note rr = row_range[OF v lt, unfolded u]
  have le: "unat (rowp A ! k) \<le> unat (rowp A ! Suc k)" using rr(3) by (simp add: word_le_nat_alt)
  have "length (concat (map (mtx_row_lines M N A) (map of_nat [0 ..< Suc k]))) =
      unat (rowp A ! k) * (unat M * unat N) +
      (unat (rowp A ! Suc k) - unat (rowp A ! k)) * (unat M * unat N)"
    using Suc.IH kn by (simp add: u rr(1))
  also have "\<dots> = unat (rowp A ! Suc k) * (unat M * unat N)"
    using le by (simp flip: add_mult_distrib)
  finally show ?case .
qed

lemma length_mtx_entries:
  fixes A :: "('w::len, 'a) BSRMat"
  assumes v: "valid_csr A"
  shows "length (mtx_entries M N A) = unat (nnz A) * unat M * unat N"
  using length_mtx_prefix[OF v order_refl, of M N] v
  by (simp add: mtx_entries_def word_interval_def valid_csr_def mult.assoc)

lemma row_length_le:
  assumes v: "valid_csr A" and d: "duplicate_free A" and r: "r < unat (nbrows A)"
  shows "unat (rowp A ! Suc r) - unat (rowp A ! r) \<le> unat (nbcols A)"
proof -
  let ?lo = "unat (rowp A ! r)" and ?hi = "unat (rowp A ! Suc r)"
  let ?f = "\<lambda>p. unat (cols A ! p)"
  have hi: "?hi \<le> unat (nnz A)"
    using rowp_mono[OF v, of "Suc r" "unat (nbrows A)"] r v
    by (simp add: valid_csr_def word_le_nat_alt)
  have inj: "inj_on ?f {?lo ..< ?hi}"
  proof (rule inj_onI)
    fix p q assume pq: "p \<in> {?lo ..< ?hi}" "q \<in> {?lo ..< ?hi}" "?f p = ?f q"
    then have e: "cols A ! p = cols A ! q" by (simp add: word_unat_eq_iff)
    show "p = q"
    proof (rule ccontr)
      assume "p \<noteq> q"
      then consider "p < q" | "q < p" by linarith
      then show False using d r pq(1,2) e unfolding duplicate_free_def
        by cases (metis atLeastLessThan_iff)+
    qed
  qed
  have sub: "?f ` {?lo ..< ?hi} \<subseteq> {..< unat (nbcols A)}"
    using v hi by (auto simp: valid_csr_def word_less_nat_alt)
  have "card {?lo ..< ?hi} \<le> card {..< unat (nbcols A)}"
    by (rule card_inj_on_le[OF inj sub]) simp
  then show ?thesis by simp
qed

lemma rowp_le_prefix:
  assumes v: "valid_csr A" and d: "duplicate_free A" and k: "k \<le> unat (nbrows A)"
  shows "unat (rowp A ! k) \<le> k * unat (nbcols A)"
  using k
proof (induction k)
  case 0
  then show ?case using v by (simp add: valid_csr_def)
next
  case (Suc k)
  then have "unat (rowp A ! k) \<le> k * unat (nbcols A)" and "k < unat (nbrows A)" by simp_all
  with row_length_le[OF v d, of k] show ?case by simp
qed

lemma nnz_le:
  assumes v: "valid_csr A" and d: "duplicate_free A"
  shows "unat (nnz A) \<le> unat (nbrows A) * unat (nbcols A)"
  using rowp_le_prefix[OF v d order_refl] v by (simp add: valid_csr_def)

lemma mtx_size_line:
  fixes A :: "('w::len, 'a) BSRMat"
  assumes v: "valid_csr A" and d: "duplicate_free A" and f: "dense_fits M N A"
  shows "unat (nbrows A * M) = unat M * unat (nbrows A)"
    and "unat (nbcols A * N) = unat N * unat (nbcols A)"
    and "unat (nnz A * M * N) = unat (nnz A) * unat M * unat N"
proof -
  from f have F: "unat M * unat (nbrows A) < 2 ^ LENGTH('w)"
    "unat N * unat (nbcols A) < 2 ^ LENGTH('w)"
    "unat M * unat (nbrows A) * (unat N * unat (nbcols A)) < 2 ^ LENGTH('w)"
    by (simp_all add: dense_fits_def less_MAX_INDEX)
  show "unat (nbrows A * M) = unat M * unat (nbrows A)"
    using F(1) by (simp add: unat_mult_lem[THEN iffD1] mult.commute)
  show "unat (nbcols A * N) = unat N * unat (nbcols A)"
    using F(2) by (simp add: unat_mult_lem[THEN iffD1] mult.commute)
  have "unat (nnz A) * (unat M * unat N) \<le> unat (nbrows A) * unat (nbcols A) * (unat M * unat N)"
    using nnz_le[OF v d] by (rule mult_le_mono1)
  also have "\<dots> = unat M * unat (nbrows A) * (unat N * unat (nbcols A))"
    by (simp add: mult_ac)
  also have "\<dots> < 2 ^ LENGTH('w)" by (rule F(3))
  finally have b: "unat (nnz A) * unat M * unat N < 2 ^ LENGTH('w)"
    by (simp add: mult.assoc)
  have "unat (nnz A) * unat M \<le> unat (nnz A) * unat M * unat N \<or> unat N = 0"
    by (cases "unat N") simp_all
  then show "unat (nnz A * M * N) = unat (nnz A) * unat M * unat N"
  proof
    assume "unat (nnz A) * unat M \<le> unat (nnz A) * unat M * unat N"
    from this b have "unat (nnz A) * unat M < 2 ^ LENGTH('w)" by (rule le_less_trans)
    then have "unat (nnz A * M) = unat (nnz A) * unat M" by (simp add: unat_mult_lem[THEN iffD1])
    with b show ?thesis by (simp add: unat_mult_lem[THEN iffD1])
  next
    assume "unat N = 0"
    then have "N = 0" by (simp add: unat_eq_0)
    then show ?thesis by simp
  qed
qed

lemma dense_dims:
  fixes A :: "('w::len, 'a) BSRMat"
  assumes "dense_fits M N A"
  shows "unat (M * nbrows A) = unat M * unat (nbrows A)"
    and "unat (N * nbcols A) = unat N * unat (nbcols A)"
    and "unat (M * nbrows A * (N * nbcols A)) = unat M * unat (nbrows A) * (unat N * unat (nbcols A))"
proof -
  from assms have F: "unat M * unat (nbrows A) < 2 ^ LENGTH('w)"
    "unat N * unat (nbcols A) < 2 ^ LENGTH('w)"
    "unat M * unat (nbrows A) * (unat N * unat (nbcols A)) < 2 ^ LENGTH('w)"
    by (simp_all add: dense_fits_def less_MAX_INDEX)
  show 1: "unat (M * nbrows A) = unat M * unat (nbrows A)"
    using F(1) by (simp add: unat_mult_lem[THEN iffD1])
  show 2: "unat (N * nbcols A) = unat N * unat (nbcols A)"
    using F(2) by (simp add: unat_mult_lem[THEN iffD1])
  show "unat (M * nbrows A * (N * nbcols A)) = unat M * unat (nbrows A) * (unat N * unat (nbcols A))"
    using F(3) by (simp add: unat_mult_lem[THEN iffD1] 1 2)
qed

lemma to_dense_spec:
  fixes A :: "('w::len, 'a::zero) BSRMat"
  assumes v: "valid_csr A" and d: "duplicate_free A" and f: "dense_fits M N A"
  shows "\<exists>buf. to_dense M N A = Some (M * nbrows A, N * nbcols A, buf) \<and>
     dense_inv M N A {(r, p, ii, jj). covered M N A r p ii jj} buf"
  using to_dense_i_loop[OF v d f] by (auto simp: to_dense_def Let_def)

lemma covered_words:
  fixes A :: "('w::len, 'a) BSRMat"
  assumes v: "valid_csr A" and c: "covered M N A r p ii jj"
  shows "\<exists>(i :: 'w word) (jp :: 'w word) (wi :: 'w word) (wj :: 'w word).
     unat i = r \<and> unat jp = p \<and> unat wi = ii \<and> unat wj = jj \<and>
     i < nbrows A \<and> rowp A ! unat i \<le> jp \<and> jp < rowp A ! unat (i + 1) \<and> wi < M \<and> wj < N"
proof -
  from c have c': "r < unat (nbrows A)" "unat (rowp A ! r) \<le> p" "p < unat (rowp A ! Suc r)"
    "ii < unat M" "jj < unat N" by (simp_all add: covered_def)
  have u: "unat (of_nat r :: 'w word) = r" "unat (of_nat p :: 'w word) = p"
    "unat (of_nat ii :: 'w word) = ii" "unat (of_nat jj :: 'w word) = jj"
    using c' by (auto intro: le_unat_uoi[of _ "nbrows A"] le_unat_uoi[of _ "rowp A ! Suc r"]
        le_unat_uoi[of _ M] le_unat_uoi[of _ N] less_imp_le)
  have lt: "(of_nat r :: 'w word) < nbrows A" using c'(1) u(1) by (simp add: word_less_nat_alt)
  have s: "unat (of_nat r + 1 :: 'w word) = Suc r" using unat_succ[OF lt] u(1) by simp
  show ?thesis
    using c' u s lt
    by (intro exI[of _ "of_nat r"] exI[of _ "of_nat p"] exI[of _ "of_nat ii"] exI[of _ "of_nat jj"])
       (simp add: word_le_nat_alt word_less_nat_alt)
qed

lemma words_covered:
  fixes A :: "('w::len, 'a) BSRMat"
  assumes "i < nbrows A" "rowp A ! unat i \<le> jp" "jp < rowp A ! unat (i + 1)" "ii < M" "jj < N"
  shows "covered M N A (unat i) (unat jp) (unat ii) (unat jj)"
  using assms unat_succ[OF assms(1)]
  by (simp add: covered_def word_le_nat_alt word_less_nat_alt)

lemma wide_rowp_simps:
  "length wide_rowp = 65537" "wide_rowp ! 0 = 0" "k < 65536 \<Longrightarrow> wide_rowp ! Suc k = 1"
  by (simp_all add: wide_rowp_def)

lemma wide_mat_simps:
  "nbrows wide_mat = 65536" "nbcols wide_mat = 65536" "nnz wide_mat = 1"
  "rowp wide_mat = wide_rowp" "cols wide_mat = [0]" "extent0 (vals wide_mat) = 1"
  "cell (vals wide_mat) p i j = 1"
  by (simp_all add: wide_mat_def)

lemma valid_wide_mat: "valid_csr wide_mat"
proof -
  have "wide_rowp ! r \<le> wide_rowp ! Suc r" if "r < 65536" for r
    using that by (cases r) (simp_all add: wide_rowp_simps)
  moreover have "wide_rowp ! 65536 = 1"
    using wide_rowp_simps(3)[of 65535] by simp
  ultimately show ?thesis
    by (simp add: valid_csr_def wide_mat_simps wide_rowp_simps)
qed

lemma duplicate_free_wide_mat: "duplicate_free wide_mat"
  by (auto simp: duplicate_free_def wide_mat_simps wide_rowp_simps)

lemma to_dense_wide_mat: "to_dense 1 1 wide_mat = None" "to_dense 2 2 wide_mat = None"
  by (simp_all add: to_dense_def to_dense_i_def to_dense_jp_def to_dense_ii_def to_dense_jj_def
      for_loop.simps[of 0] idx_get_def idx_set_def vals_read_def vals_in_def
      wide_mat_simps wide_rowp_simps wide_rowp_simps(3)[of 0, simplified])

lemma duplicate_free_example_mat: "duplicate_free example_mat"
  by (auto simp: duplicate_free_def example_mat_simps all_less_numeral)

lemma dense_fits_example_mat: "dense_fits 2 2 example_mat"
  by (simp add: dense_fits_def example_mat_simps less_MAX_INDEX)

lemma mtx_fits_example_mat: "mtx_fits 2 2 example_mat"
  by (simp add: mtx_fits_def example_mat_simps)

lemma mtx_entries_example_mat:
  "mtx_entries 2 2 example_mat =
    [mtx_entry 2 2 example_mat 0 0 0 0, mtx_entry 2 2 example_mat 0 0 0 1,
     mtx_entry 2 2 example_mat 0 0 1 0, mtx_entry 2 2 example_mat 0 0 1 1,
     mtx_entry 2 2 example_mat 1 1 0 0, mtx_entry 2 2 example_mat 1 1 0 1,
     mtx_entry 2 2 example_mat 1 1 1 0, mtx_entry 2 2 example_mat 1 1 1 1]"
  by (simp add: mtx_entries_def mtx_row_lines_def mtx_block_lines_def word_interval_def
      example_mat_simps upt_rec)

lemma long_mat_simps:
  "nbrows long_mat = 1" "nbcols long_mat = 2147483648" "nnz long_mat = 0"
  "rowp long_mat = [0, 0]" "cols long_mat = []" "extent0 (vals long_mat) = 0"
  by (simp_all add: long_mat_def)

lemma valid_long_mat: "valid_csr long_mat"
  by (simp add: valid_csr_def long_mat_simps)

lemma duplicate_free_long_mat: "duplicate_free long_mat"
  by (simp add: duplicate_free_def long_mat_simps)

lemma write_mtx_long_mat:
  "write_mtx 1 1 True long_mat =
     Some [Header ''%%MatrixMarket matrix coordinate real general'',
           Size_line 1 (- 2147483648) 0]"
  by (simp add: write_mtx_def fopen_w_def write_mtx_i_def for_loop.simps idx_get_def
      long_mat_simps print_d_def)

lemma coordinate_bounds:
  fixes R m :: nat
  assumes "R < m" and "r = int (Suc R)"
  shows "1 \<le> r \<and> r \<le> int m \<and> nat (r - 1) = R"
  using assms by simp

lemma mtx_size_printed:
  fixes A :: "('w::len, 'a) BSRMat"
  assumes v: "valid_csr A" and d: "duplicate_free A" and f: "dense_fits M N A"
    and g: "mtx_fits M N A"
  shows "print_d (nbrows A * M) = int (unat M * unat (nbrows A))"
    and "print_d (nbcols A * N) = int (unat N * unat (nbcols A))"
    and "print_d (nnz A * M * N) = int (unat (nnz A) * unat M * unat N)"
proof -
  note sz = mtx_size_line[OF v d f]
  from g have G: "unat (nbrows A * M) < 2 ^ 31" "unat (nbcols A * N) < 2 ^ 31"
    "unat (nnz A * M * N) < 2 ^ 31"
    unfolding sz by (simp_all only: mtx_fits_def)
  show "print_d (nbrows A * M) = int (unat M * unat (nbrows A))"
    using print_d_small[OF G(1)] by (simp only: sz)
  show "print_d (nbcols A * N) = int (unat N * unat (nbcols A))"
    using print_d_small[OF G(2)] by (simp only: sz)
  show "print_d (nnz A * M * N) = int (unat (nnz A) * unat M * unat N)"
    using print_d_small[OF G(3)] by (simp only: sz)
qed

lemma mtx_entry_printed:
  fixes A :: "('w::len, 'a) BSRMat"
  assumes v: "valid_csr A" and f: "dense_fits M N A" and g: "mtx_fits M N A"
    and w: "i < nbrows A" "rowp A ! unat i \<le> jp" "jp < rowp A ! unat (i + 1)" "ii < M" "jj < N"
  shows "mtx_entry M N A i jp ii jj =
     Entry_line (int (Suc (unat M * unat i + unat ii)))
       (int (Suc (unat N * unat (cols A ! unat jp) + unat jj)))
       (cell (vals A) (unat jp) (unat ii) (unat jj))"
proof -
  note c = words_covered[OF w]
  note b = dense_index_bounds[OF v c] and dw = dense_index_word[OF v f c]
  from g have G: "unat M * unat (nbrows A) < 2 ^ 31" "unat N * unat (nbcols A) < 2 ^ 31"
    by (simp_all only: mtx_fits_def)
  have "unat (M * i + ii + 1) < 2 ^ 31"
    unfolding dw(5) by (rule le_less_trans[OF Suc_leI[OF b(1)] G(1)])
  then have 1: "print_d (M * i + ii + 1) = int (Suc (unat M * unat i + unat ii))"
    using print_d_small[of "M * i + ii + 1"] by (simp only: dw(5))
  have "unat (N * (cols A ! unat jp) + jj + 1) < 2 ^ 31"
    unfolding dw(6) by (rule le_less_trans[OF Suc_leI[OF b(2)] G(2)])
  then have 2: "print_d (N * (cols A ! unat jp) + jj + 1) =
      int (Suc (unat N * unat (cols A ! unat jp) + unat jj))"
    using print_d_small[of "N * (cols A ! unat jp) + jj + 1"] by (simp only: dw(6))
  show ?thesis by (simp only: mtx_entry_def 1 2)
qed

section \<open>Lookup: \<open>find_column_index\<close>\<close>

text \<open>
  Claim C4. In a matrix with a valid CSR pattern and \<open>nnz < MAX_INDEX\<close>, for a block row
  \<open>row\<close> of the matrix and any block column \<open>col\<close>, \<open>find_column_index(row, col)\<close> returns:
  when some slot of the row holds \<open>col\<close>, a slot \<open>r\<close> with \<open>rowp[row] \<le> r < rowp[row + 1]\<close>
  and \<open>cols[r] = col\<close>; when no slot of the row holds \<open>col\<close>, \<open>MAX_INDEX\<close>. No storage index
  (an index below \<open>nnz\<close>) is \<open>MAX_INDEX\<close>.
\<close>

theorem find_column_index_correct:
  assumes "valid_csr A" and "nnz A < MAX_INDEX" and "row < nbrows A"
  shows "\<exists>r. find_column_index A row col = Some r \<and>
           ((\<exists>p. rowp A ! unat row \<le> p \<and> p < rowp A ! unat (row + 1) \<and> cols A ! unat p = col)
              \<longrightarrow> rowp A ! unat row \<le> r \<and> r < rowp A ! unat (row + 1) \<and> cols A ! unat r = col) \<and>
           ((\<forall>p. rowp A ! unat row \<le> p \<and> p < rowp A ! unat (row + 1) \<longrightarrow> cols A ! unat p \<noteq> col)
              \<longrightarrow> r = MAX_INDEX) \<and>
           (\<forall>p. p < nnz A \<longrightarrow> p \<noteq> MAX_INDEX)"
proof -
  have s: "unat (row + 1) = Suc (unat row)" using assms(3) by (rule unat_succ)
  from find_column_index_spec[OF assms(1,3), of col]
  obtain r where r: "find_column_index A row col = Some r"
    "if \<exists>p. rowp A ! unat row \<le> p \<and> p < rowp A ! Suc (unat row) \<and> cols A ! unat p = col
     then first_slot (cols A) col (rowp A ! unat row) (rowp A ! Suc (unat row)) r
     else r = MAX_INDEX" by blast
  have d: "\<forall>p. p < nnz A \<longrightarrow> p \<noteq> MAX_INDEX" using assms(2) by auto
  show ?thesis
  proof (cases "\<exists>p. rowp A ! unat row \<le> p \<and> p < rowp A ! Suc (unat row) \<and> cols A ! unat p = col")
    case True
    with r(2) have "first_slot (cols A) col (rowp A ! unat row) (rowp A ! Suc (unat row)) r"
      by simp
    then have "rowp A ! unat row \<le> r \<and> r < rowp A ! Suc (unat row) \<and> cols A ! unat r = col"
      by (simp add: first_slot_def)
    with True r(1) d show ?thesis unfolding s by blast
  next
    case False
    with r(2) have "r = MAX_INDEX" by simp
    with False r(1) d show ?thesis unfolding s by blast
  qed
qed

theorem find_column_index_correct_witness:
  "\<exists>r. find_column_index example_mat 1 1 = Some r \<and>
        ((\<exists>p. rowp example_mat ! unat (1 :: 32 word) \<le> p \<and>
              p < rowp example_mat ! unat (1 + 1 :: 32 word) \<and> cols example_mat ! unat p = 1)
           \<longrightarrow> rowp example_mat ! unat (1 :: 32 word) \<le> r \<and>
               r < rowp example_mat ! unat (1 + 1 :: 32 word) \<and> cols example_mat ! unat r = 1) \<and>
        ((\<forall>p. rowp example_mat ! unat (1 :: 32 word) \<le> p \<and>
              p < rowp example_mat ! unat (1 + 1 :: 32 word) \<longrightarrow> cols example_mat ! unat p \<noteq> 1)
           \<longrightarrow> r = MAX_INDEX) \<and>
        (\<forall>p. p < nnz example_mat \<longrightarrow> p \<noteq> MAX_INDEX)"
proof -
  have h2: "nnz example_mat < MAX_INDEX" by (simp add: example_mat_def MAX_INDEX_def)
  have h3: "1 < nbrows example_mat" by (simp add: example_mat_def)
  show ?thesis by (rule find_column_index_correct[OF valid_example_mat h2 h3])
qed

section \<open>Value reset: \<open>zero\<close>\<close>

text \<open>
  Claim C9. After \<open>zero()\<close> every scalar of \<open>vals\<close> is the additive identity 0, and calling
  \<open>zero()\<close> twice leaves the matrix in the same state as calling it once.
\<close>

theorem zero_idempotent:
  "cell (vals (zero A)) p i j = 0 \<and> zero (zero A) = zero A"
  by (simp add: zero_def BLAS_zero_def)


section \<open>The pattern is fixed\<close>

text \<open>
  Claim C7, amended. Whenever a call of \<open>zero\<close>, \<open>find_column_index\<close>, \<open>add_values\<close>, \<open>zero_rows\<close>,
  \<open>to_dense\<close> or \<open>write_mtx\<close> on a matrix has defined behaviour, the matrix after the call
  has the same \<open>nbrows\<close>, \<open>nbcols\<close>, \<open>nnz\<close>, \<open>rowp\<close>, \<open>cols\<close>, \<open>diag\<close>, \<open>perm\<close>, \<open>iperm\<close>,
  \<open>num_colors\<close> and \<open>color_count\<close> as before: only \<open>vals\<close> can differ.
\<close>

theorem pattern_never_mutated:
  assumes "call M N operation A = Some (A', out)"
  shows "nbrows A' = nbrows A \<and> nbcols A' = nbcols A \<and> nnz A' = nnz A \<and>
         rowp A' = rowp A \<and> cols A' = cols A \<and> diag A' = diag A \<and> perm A' = perm A \<and>
         iperm A' = iperm A \<and> num_colors A' = num_colors A \<and> color_count A' = color_count A"
  using call_pattern[OF assms] by (simp add: pattern_of_def)

theorem pattern_never_mutated_witness:
  "\<exists>A'. call 2 2 (Call_zero_rows 1 [0]) example_mat = Some (A', Returned) \<and>
     cell (vals A') 0 0 1 \<noteq> cell (vals example_mat) 0 0 1 \<and>
     nbrows A' = nbrows example_mat \<and> nbcols A' = nbcols example_mat \<and>
     nnz A' = nnz example_mat \<and> rowp A' = rowp example_mat \<and> cols A' = cols example_mat \<and>
     diag A' = diag example_mat \<and> perm A' = perm example_mat \<and> iperm A' = iperm example_mat \<and>
     num_colors A' = num_colors example_mat \<and> color_count A' = color_count example_mat"
proof -
  let ?A' = "elim_row 2 example_mat 0 0 0 1"
  have r: "dof_in_range 2 (nbrows example_mat) (0 :: 32 word)"
    by (simp add: dof_in_range_def example_mat_simps)
  have "zero_rows 2 2 1 [0] example_mat = Some ?A'"
    using zero_rows_single_run[OF valid_example_mat r, of 2] by (simp add: example_mat_simps)
  then have c: "call 2 2 (Call_zero_rows 1 [0]) example_mat = Some (?A', Returned)"
    by simp
  have "cell (vals ?A') 0 0 1 \<noteq> cell (vals example_mat) 0 0 1"
    by (simp add: elim_row_def example_mat_simps)
  with c pattern_never_mutated[OF c] show ?thesis by blast
qed

text \<open>
  The claim as stated fails for the calls whose behaviour is undefined, after which
  nothing is known of any member. Two of them have in-range arguments: \<open>to_dense\<close> on a
  matrix of \<open>65536 \<times> 65536\<close> blocks of one scalar, with 32-bit indices, where the size
  of the buffer wraps around to 0 and the copy writes outside it; and \<open>zero_rows\<close> with
  \<open>M = 2\<close>, \<open>N = 1\<close> and the DOF 3, where the write of the diagonal entry \<open>vals(1, 1, 1)\<close>
  is outside the block.
\<close>

theorem pattern_never_mutated_counterexample:
  "valid_csr wide_mat \<and> call 1 1 Call_to_dense wide_mat = None \<and>
   valid_csr example_mat \<and> dof_in_range 2 (nbrows example_mat) 3 \<and>
   call 2 1 (Call_zero_rows 1 [3]) example_mat = None"
  by (simp add: valid_wide_mat to_dense_wide_mat valid_example_mat dof_in_range_def
      zero_rows_def zero_rows_dof_def zero_rows_block_def zero_rows_k_def for_loop.simps
      idx_get_def idx_div_def idx_mod_def example_mat_simps vals_write_def vals_in_def)

section \<open>Construction\<close>

text \<open>
  Claim C8, amended. A construction \<open>BSRMat(nbrows, nbcols, nnz, rowp_, cols_)\<close> with
  \<open>nbrows < MAX_INDEX\<close>, where \<open>rowp_\<close> has at least \<open>nbrows + 1\<close> and \<open>cols_\<close> at least \<open>nnz\<close>
  entries, returns a matrix with \<open>rowp[i] = rowp_[i]\<close> for every \<open>i \<le> nbrows\<close> and
  \<open>cols[i] = cols_[i]\<close> for every \<open>i < nnz\<close>; if \<open>rowp_[0] = 0\<close> and \<open>rowp_[nbrows] = nnz\<close>
  then \<open>rowp[0] = 0\<close> and \<open>rowp[nbrows] = nnz\<close>.
\<close>

theorem BSRMat_new_copies_pattern:
  fixes nbrows' :: "'w::len index_t"
  assumes "nbrows' < MAX_INDEX" and "unat nbrows' < length rowp_in"
    and "unat nnz' \<le> length cols_in"
  shows "\<exists>A. BSRMat_new fresh_idx fresh_val nbrows' nbcols' nnz' rowp_in cols_in = Some A \<and>
     nbrows A = nbrows' \<and> nbcols A = nbcols' \<and> nnz A = nnz' \<and>
     (\<forall>i. i \<le> nbrows' \<longrightarrow> idx_get (rowp A) i = Some (rowp_in ! unat i)) \<and>
     (\<forall>i. i < nnz' \<longrightarrow> idx_get (cols A) i = Some (cols_in ! unat i)) \<and>
     (rowp_in ! 0 = 0 \<and> rowp_in ! unat nbrows' = nnz' \<longrightarrow>
        idx_get (rowp A) (0 :: 'w index_t) = Some 0 \<and>
        idx_get (rowp A) (nbrows A) = Some (nnz A))"
proof -
  from assms(2) have lr: "unat nbrows' + 1 \<le> length rowp_in" by simp
  from BSRMat_new_spec[OF assms(1) lr assms(3), of fresh_idx fresh_val nbcols']
  obtain A where A: "BSRMat_new fresh_idx fresh_val nbrows' nbcols' nnz' rowp_in cols_in = Some A"
    "nbrows A = nbrows'" "nbcols A = nbcols'" "nnz A = nnz'"
    "rowp A = take (unat nbrows' + 1) rowp_in" "cols A = take (unat nnz') cols_in"
    by force
  have r: "idx_get (rowp A) i = Some (rowp_in ! unat i)" if "i \<le> nbrows'" for i
    using that lr by (simp add: idx_get_def A(5) word_le_nat_alt)
  have c: "idx_get (cols A) i = Some (cols_in ! unat i)" if "i < nnz'" for i
    using that assms(3) by (simp add: idx_get_def A(6) word_less_nat_alt)
  have "idx_get (rowp A) (0 :: 'w index_t) = Some 0 \<and>
      idx_get (rowp A) (nbrows A) = Some (nnz A)"
    if "rowp_in ! 0 = 0 \<and> rowp_in ! unat nbrows' = nnz'"
    using that r[of 0] r[of nbrows'] by (simp add: A(2,4))
  with A(1-4) r c show ?thesis by blast
qed

theorem BSRMat_new_copies_pattern_witness:
  "\<exists>A. BSRMat_new fresh_idx0 fresh_val0 2 2 2 [0, 1, 2] [0, 1] = Some A \<and>
     idx_get (rowp A) (0 :: 32 word) = Some 0 \<and> idx_get (rowp A) (1 :: 32 word) = Some 1 \<and>
     idx_get (rowp A) (2 :: 32 word) = Some 2 \<and>
     idx_get (cols A) (0 :: 32 word) = Some 0 \<and> idx_get (cols A) (1 :: 32 word) = Some 1"
proof -
  have h1: "(2 :: 32 word) < MAX_INDEX" by (simp add: MAX_INDEX_def)
  have h2: "unat (2 :: 32 word) < length [0, 1, 2 :: 32 word]" by simp
  have h3: "unat (2 :: 32 word) \<le> length [0, 1 :: 32 word]" by simp
  from BSRMat_new_copies_pattern[OF h1 h2 h3, of fresh_idx0 fresh_val0 2]
  obtain A where A: "BSRMat_new fresh_idx0 fresh_val0 2 2 2 [0, 1, 2] [0, 1] = Some A"
    "\<forall>i. i \<le> (2 :: 32 word) \<longrightarrow> idx_get (rowp A) i = Some ([0, 1, 2] ! unat i)"
    "\<forall>i. i < (2 :: 32 word) \<longrightarrow> idx_get (cols A) i = Some ([0, 1] ! unat i)"
    by blast
  from A(2)[rule_format, of 0] A(2)[rule_format, of 1] A(2)[rule_format, of 2]
    A(3)[rule_format, of 0] A(3)[rule_format, of 1] A(1)
  show ?thesis by simp
qed

text \<open>
  The claim as stated fails for \<open>nbrows = MAX_INDEX\<close>: \<open>nbrows + 1\<close> wraps around to 0, so
  \<open>rowp\<close> is allocated with no entries and the copying loop does not run. Here with
  32-bit indices, no blocks and a \<open>rowp_\<close> of \<open>2^32\<close> zeros.
\<close>

theorem BSRMat_new_counterexample:
  "map_option rowp
     (BSRMat_new fresh_idx0 fresh_val0 MAX_INDEX 1 0 (replicate (2 ^ 32) 0) []) = Some []"
  by (rule BSRMat_new_wraps)

section \<open>Boundary conditions: \<open>zero_rows\<close>\<close>

text \<open>
  Claim C2, amended. Let \<open>A\<close> have a valid CSR pattern, let \<open>d\<close> be an in-range DOF with
  block row \<open>d / M\<close> and row offset \<open>e = d % M\<close>, and let \<open>e < N\<close> if the block row has a
  diagonal block. Then \<open>zero_rows({d})\<close> returns, and afterwards every stored scalar of the
  scalar row \<open>d\<close> (row \<open>e\<close> of each block of the block row) is 0, except the scalar
  \<open>(e, e)\<close> of each block whose column is the block row, which is 1. Hence some stored
  scalar of the row is 1 if and only if the diagonal block is in the pattern.
\<close>

theorem zero_rows_single_dof:
  fixes A :: "('w::len, 'a::zero_neq_one) BSRMat"
  assumes "valid_csr A" and "dof_in_range M (nbrows A) d"
    and "\<forall>p. rowp A ! unat (d div M) \<le> p \<and> p < rowp A ! unat (d div M + 1) \<and>
             cols A ! unat p = d div M \<longrightarrow> d mod M < N"
  shows "\<exists>A'. zero_rows M N 1 [d] A = Some A' \<and>
     (\<forall>p k. rowp A ! unat (d div M) \<le> p \<and> p < rowp A ! unat (d div M + 1) \<and> k < N \<longrightarrow>
        cell (vals A') (unat p) (unat (d mod M)) (unat k) =
          (if cols A ! unat p = d div M \<and> k = d mod M then 1 else 0)) \<and>
     ((\<exists>p k. rowp A ! unat (d div M) \<le> p \<and> p < rowp A ! unat (d div M + 1) \<and> k < N \<and>
             cell (vals A') (unat p) (unat (d mod M)) (unat k) = 1) \<longleftrightarrow>
      (\<exists>p. rowp A ! unat (d div M) \<le> p \<and> p < rowp A ! unat (d div M + 1) \<and>
           cols A ! unat p = d div M))"
proof -
  let ?br = "d div M" and ?er = "d mod M"
  note dd = dof_in_rangeD[OF assms(2)]
  have s: "unat (?br + 1) = Suc (unat ?br)" using dd(2) by (rule unat_succ)
  let ?lo = "rowp A ! unat ?br" and ?hi = "rowp A ! Suc (unat ?br)"
  let ?A' = "elim_row N A ?br ?er (unat ?lo) (unat ?hi)"
  have run: "zero_rows M N 1 [d] A = Some ?A'"
    using zero_rows_single_run[OF assms(1,2)] assms(3) unfolding s by blast
  have cells: "cell (vals ?A') (unat p) (unat ?er) (unat k) =
          (if cols A ! unat p = ?br \<and> k = ?er then 1 else 0)"
    if "?lo \<le> p" "p < ?hi" "k < N" for p k
    using that by (simp add: elim_row_def word_le_nat_alt word_less_nat_alt word_unat_eq_iff)
  have "(\<exists>p k. ?lo \<le> p \<and> p < ?hi \<and> k < N \<and> cell (vals ?A') (unat p) (unat ?er) (unat k) = 1) \<longleftrightarrow>
      (\<exists>p. ?lo \<le> p \<and> p < ?hi \<and> cols A ! unat p = ?br)" (is "?L \<longleftrightarrow> ?R")
  proof
    assume ?L
    then obtain p k where pk: "?lo \<le> p" "p < ?hi" "k < N"
      "cell (vals ?A') (unat p) (unat ?er) (unat k) = 1" by blast
    from cells[OF pk(1-3)] pk(4) have "cols A ! unat p = ?br" by (auto split: if_splits)
    with pk show ?R by blast
  next
    assume ?R
    then obtain p where p: "?lo \<le> p" "p < ?hi" "cols A ! unat p = ?br" by blast
    with assms(3) have "?er < N" unfolding s by blast
    from cells[OF p(1,2) this] p show ?L using \<open>?er < N\<close> by auto
  qed
  with run cells show ?thesis unfolding s by (intro exI[of _ ?A']) simp
qed

theorem zero_rows_single_dof_witness:
  "\<exists>A'. zero_rows 2 2 1 [0] example_mat = Some A' \<and>
     cell (vals A') 0 0 0 = 1 \<and> cell (vals A') 0 0 1 = 0"
proof -
  have h2: "dof_in_range 2 (nbrows example_mat) (0 :: 32 word)"
    by (simp add: dof_in_range_def example_mat_simps)
  have h3: "\<forall>p. rowp example_mat ! unat (0 div 2 :: 32 word) \<le> p \<and>
      p < rowp example_mat ! unat (0 div 2 + 1 :: 32 word) \<and>
      cols example_mat ! unat p = 0 div 2 \<longrightarrow> (0 :: 32 word) mod 2 < 2"
    by simp
  note th = zero_rows_single_dof[OF valid_example_mat h2 h3]
  then obtain A' where A': "zero_rows 2 2 1 [0] example_mat = Some A'"
    and c: "\<forall>p (k :: 32 word). rowp example_mat ! unat (0 div 2 :: 32 word) \<le> p \<and>
        p < rowp example_mat ! unat (0 div 2 + 1 :: 32 word) \<and> k < 2 \<longrightarrow>
        cell (vals A') (unat p) (unat (0 mod 2 :: 32 word)) (unat k) =
          (if cols example_mat ! unat p = 0 div 2 \<and> k = 0 mod 2 then 1 else 0)"
    by blast
  have "cell (vals A') 0 0 0 = 1"
    using c[rule_format, of 0 0] by (simp add: example_mat_simps)
  moreover have "cell (vals A') 0 0 1 = 0"
    using c[rule_format, of 0 1] by (simp add: example_mat_simps)
  ultimately show ?thesis using A' by simp
qed

text \<open>
  The claim as stated fails for blocks with more rows than columns: with \<open>M = 2\<close>,
  \<open>N = 1\<close> and the DOF 3 (block row 1, offset 1), the diagonal block is in the pattern
  and the write to \<open>vals(1, 1, 1)\<close> is outside the block.
\<close>

theorem zero_rows_single_dof_counterexample:
  "valid_csr example_mat \<and> dof_in_range 2 (nbrows example_mat) 3 \<and>
   zero_rows 2 1 1 [3] example_mat = None"
  by (simp add: valid_example_mat dof_in_range_def zero_rows_def zero_rows_dof_def
      zero_rows_block_def zero_rows_k_def for_loop.simps idx_get_def idx_div_def idx_mod_def
      example_mat_simps vals_write_def vals_in_def)

text \<open>
  Claim C10, amended. Let \<open>A\<close> have a valid CSR pattern and let every listed DOF be in
  range, with \<open>dof % M < N\<close> if its block row has a diagonal block. Then \<open>zero_rows(nbcs, dof)\<close>
  returns, and every stored scalar outside the listed scalar rows is unchanged: for a
  slot \<open>p\<close> of block row \<open>r\<close>, a row offset \<open>e < M\<close> such that \<open>M r + e\<close> is not a listed DOF,
  and \<open>k < N\<close>, \<open>vals(p, e, k)\<close> is as before.
\<close>

theorem zero_rows_frame:
  fixes A :: "('w::len, 'a::{zero,one}) BSRMat"
  assumes v: "valid_csr A" and len: "unat nbcs \<le> length dof"
    and rng: "\<forall>ii < unat nbcs. dof_in_range M (nbrows A) (dof ! ii)"
    and dg: "\<forall>ii < unat nbcs. \<forall>p. rowp A ! unat (dof ! ii div M) \<le> p \<and>
             p < rowp A ! unat (dof ! ii div M + 1) \<and> cols A ! unat p = dof ! ii div M
               \<longrightarrow> dof ! ii mod M < N"
  shows "\<exists>A'. zero_rows M N nbcs dof A = Some A' \<and>
     (\<forall>r p e k. r < unat (nbrows A) \<and> unat (rowp A ! r) \<le> p \<and> p < unat (rowp A ! Suc r) \<and>
         e < unat M \<and> k < unat N \<and> (\<forall>ii < unat nbcs. unat (dof ! ii) \<noteq> unat M * r + e)
        \<longrightarrow> cell (vals A') p e k = cell (vals A) p e k)"
proof -
  let ?F = "\<lambda>f. \<forall>r p e k. r < unat (nbrows A) \<and> unat (rowp A ! r) \<le> p \<and> p < unat (rowp A ! Suc r) \<and>
         e < unat M \<and> k < unat N \<and> (\<forall>ii < unat nbcs. unat (dof ! ii) \<noteq> unat M * r + e)
        \<longrightarrow> f p e k = cell (vals A) p e k"
  let ?I = "\<lambda>(k :: 'w word) t. \<exists>f. t = set_cells A f \<and> ?F f"
  have "\<exists>s'. for_loop 0 nbcs (zero_rows_dof M N dof) A = Some s' \<and> ?I nbcs s'"
  proof (rule for_loop_total[where I = ?I])
    show "0 \<le> nbcs" by simp
    show "?I 0 A" by (intro exI[of _ "cell (vals A)"]) simp
  next
    fix k t assume k: "0 \<le> k" "k < nbcs" and "?I k t"
    then obtain f where f: "t = set_cells A f" "?F f" by blast
    have kn: "unat k < unat nbcs" using k(2) by (simp add: word_less_nat_alt)
    let ?d = "dof ! unat k"
    let ?br = "?d div M" and ?er = "?d mod M"
    have dr: "dof_in_range M (nbrows A) ?d" using rng kn by simp
    note dd = dof_in_rangeD[OF dr]
    have s: "unat (?br + 1) = Suc (unat ?br)" using dd(2) by (rule unat_succ)
    have vt: "valid_csr t" using v f(1) by simp
    let ?lo = "unat (rowp A ! unat ?br)" and ?hi = "unat (rowp A ! Suc (unat ?br))"
    have step: "zero_rows_dof M N dof k t = Some (elim_row N t ?br ?er ?lo ?hi)"
      using zero_rows_dof_spec[of t k dof M N] vt kn len dr dg[rule_format, OF kn] f(1)
      by (simp add: s)
    let ?g = "cell (vals (elim_row N t ?br ?er ?lo ?hi))"
    have e: "elim_row N t ?br ?er ?lo ?hi = set_cells A ?g"
      by (simp add: elim_row_def f(1))
    have "?F ?g"
    proof (intro allI impI, elim conjE)
      fix r p e kk
      assume a: "r < unat (nbrows A)" "unat (rowp A ! r) \<le> p" "p < unat (rowp A ! Suc r)"
        "e < unat M" "kk < unat N" "\<forall>ii < unat nbcs. unat (dof ! ii) \<noteq> unat M * r + e"
      have "\<not> (?lo \<le> p \<and> p < ?hi \<and> e = unat ?er)"
      proof
        assume b: "?lo \<le> p \<and> p < ?hi \<and> e = unat ?er"
        have "unat ?br < unat (nbrows A)" using dd(2) by (simp add: word_less_nat_alt)
        then have "r = unat ?br" using row_disjoint[OF v a(1) _ a(2,3)] b by blast
        then have "unat ?d = unat M * r + e" using dd(4) b by simp
        then show False using a(6) kn by blast
      qed
      then have "?g p e kk = f p e kk" by (auto simp: elim_row_def f(1))
      then show "?g p e kk = cell (vals A) p e kk" using f(2) a by simp
    qed
    then show "\<exists>t'. zero_rows_dof M N dof k t = Some t' \<and> ?I (k + 1) t'"
      using step e by blast
  qed
  then show ?thesis unfolding zero_rows_def by auto
qed

theorem zero_rows_frame_witness:
  "\<exists>A'. zero_rows 2 2 1 [0] example_mat = Some A' \<and>
     cell (vals A') 0 1 0 = 3 \<and> cell (vals A') 0 1 1 = 4 \<and> cell (vals A') 1 0 0 = 5"
proof -
  have h2: "unat (1 :: 32 word) \<le> length [0 :: 32 word]" by simp
  have h3: "\<forall>ii < unat (1 :: 32 word). dof_in_range 2 (nbrows example_mat) ([0 :: 32 word] ! ii)"
    by (simp add: dof_in_range_def example_mat_simps)
  have h4: "\<forall>ii < unat (1 :: 32 word). \<forall>p.
      rowp example_mat ! unat ([0 :: 32 word] ! ii div 2) \<le> p \<and>
      p < rowp example_mat ! unat ([0 :: 32 word] ! ii div 2 + 1) \<and>
      cols example_mat ! unat p = [0 :: 32 word] ! ii div 2 \<longrightarrow>
      [0 :: 32 word] ! ii mod 2 < (2 :: 32 word)"
    by simp
  from zero_rows_frame[OF valid_example_mat h2 h3 h4]
  obtain A' where A': "zero_rows 2 2 1 [0] example_mat = Some A'"
    "\<forall>r p e k. r < unat (nbrows example_mat) \<and> unat (rowp example_mat ! r) \<le> p \<and>
        p < unat (rowp example_mat ! Suc r) \<and> e < unat (2 :: 32 word) \<and> k < unat (2 :: 32 word) \<and>
        (\<forall>ii < unat (1 :: 32 word). unat ([0 :: 32 word] ! ii) \<noteq> unat (2 :: 32 word) * r + e)
        \<longrightarrow> cell (vals A') p e k = cell (vals example_mat) p e k"
    by blast
  from A'(2)[rule_format, of 0 0 1 0] A'(2)[rule_format, of 0 0 1 1] A'(2)[rule_format, of 1 1 0 0] A'(1)
  show ?thesis by (simp add: example_mat_simps)
qed

text \<open>
  The claim as stated fails for blocks with more rows than columns: with \<open>M = 2\<close>,
  \<open>N = 1\<close> and the DOFs 0 and 1, the second write of a diagonal entry, to \<open>vals(0, 1, 1)\<close>,
  is outside the block.
\<close>

theorem zero_rows_frame_counterexample:
  "valid_csr example_mat \<and> dof_in_range 2 (nbrows example_mat) 0 \<and>
   dof_in_range 2 (nbrows example_mat) 1 \<and> zero_rows 2 1 2 [0, 1] example_mat = None"
  by (simp add: valid_example_mat dof_in_range_def zero_rows_def zero_rows_dof_def
      zero_rows_block_def zero_rows_k_def for_loop.simps idx_get_def idx_div_def idx_mod_def
      example_mat_simps vals_write_def vals_in_def)

section \<open>Assembly: \<open>add_values\<close>\<close>

text \<open>
  Claim C1, amended. Let \<open>A\<close> have a valid CSR pattern and let all the DOFs \<open>i[ii]\<close>, \<open>j[jj]\<close>
  of the call \<open>add_values(m, i, n, j, mat)\<close> decompose to in-range block indices. Then the
  call returns, and each scalar \<open>vals(p, a, b)\<close> is afterwards its old value to which
  the values \<open>mat(ii, jj)\<close> addressed to it have been added one after the other, in the
  order of the loops. A pair \<open>(ii, jj)\<close> addresses the slot that the lookup finds for
  its block: the first slot \<open>p\<close> of the block row \<open>i[ii] / M\<close> with \<open>cols[p] = j[jj] / N\<close>, at
  the offsets \<open>(i[ii] % M, j[jj] % N)\<close>. The lookup is the same before and after. After
  \<open>zero()\<close>, the scalars of the slot that the lookup returns are the sums of the values
  addressed to them.
\<close>

theorem add_values_accumulates:
  fixes A :: "('w::len, 'a::{zero,plus}) BSRMat"
  assumes "valid_csr A" and "unat m \<le> length i" and "unat n \<le> length j"
    and "\<forall>ii < unat m. dof_in_range M (nbrows A) (i ! ii)"
    and "\<forall>jj < unat n. dof_in_range N (nbcols A) (j ! jj)"
  shows "(\<exists>A'. add_values M N m i n j mat A = Some A' \<and>
       (\<forall>p a b. cell (vals A') p a b =
          foldl (+) (cell (vals A) p a b) (contributions M N A m i n j mat p a b)) \<and>
       (\<forall>row col. find_column_index A' row col = find_column_index A row col)) \<and>
     (\<exists>Z. add_values M N m i n j mat (zero A) = Some Z \<and>
       (\<forall>row col r a b. find_column_index Z row col = Some r \<longrightarrow>
          cell (vals Z) (unat r) a b =
            foldl (+) 0 (contributions M N A m i n j mat (unat r) a b)))"
proof -
  have N: "n = 0 \<or> N \<noteq> 0"
  proof (cases "n = 0")
    case False
    then have "0 < unat n" by (simp add: unat_gt_0)
    with assms(5) have "dof_in_range N (nbcols A) (j ! 0)" by blast
    then show ?thesis by (simp add: dof_in_range_def)
  qed simp
  note a = add_values_spec[OF assms(1-4) N, of mat]
  have vz: "valid_csr (zero A)" "nbrows (zero A) = nbrows A"
    using assms(1) by (simp_all add: zero_set_cells)
  have z: "add_values M N m i n j mat (zero A) =
    Some (set_cells A (\<lambda>p a b. foldl (+) 0 (contributions M N A m i n j mat p a b)))"
    using add_values_spec[OF vz(1) assms(2,3) _ N, of M mat] assms(4)
    by (simp add: zero_set_cells)
  show ?thesis unfolding a z by simp
qed

theorem add_values_accumulates_witness:
  "\<exists>A'. add_values 2 2 2 [0, 0] 1 [0] example_local example_mat = Some A' \<and>
     cell (vals A') 0 0 0 = 11 \<and> cell (vals A') 0 0 1 = 2"
proof -
  have h2: "unat (2 :: 32 word) \<le> length [0, 0 :: 32 word]" by simp
  have h3: "unat (1 :: 32 word) \<le> length [0 :: 32 word]" by simp
  have h4: "\<forall>ii < unat (2 :: 32 word). dof_in_range 2 (nbrows example_mat) ([0, 0 :: 32 word] ! ii)"
    by (simp add: dof_in_range_def example_mat_simps all_less_numeral)
  have h5: "\<forall>jj < unat (1 :: 32 word). dof_in_range 2 (nbcols example_mat) ([0 :: 32 word] ! jj)"
    by (simp add: dof_in_range_def example_mat_simps)
  from add_values_accumulates[OF valid_example_mat h2 h3 h4 h5, of example_local]
  obtain A' where A': "add_values 2 2 2 [0, 0] 1 [0] example_local example_mat = Some A'"
    and c: "\<forall>p a b. cell (vals A') p a b = foldl (+) (cell (vals example_mat) p a b)
            (contributions 2 2 example_mat 2 [0, 0] 1 [0] example_local p a b)"
    by blast
  have "cell (vals A') 0 0 0 = 11"
    using c[rule_format, of 0 0 0] by (simp add: example_local_contributions example_mat_simps)
  moreover have "cell (vals A') 0 0 1 = 2"
    using c[rule_format, of 0 0 1] by (simp add: example_local_contributions example_mat_simps)
  ultimately show ?thesis using A' by simp
qed

text \<open>
  The claim as stated fails where a block row lists a block column twice: the value is
  added in the first of the two slots only. Here the block \<open>(0, 0)\<close> is in the pattern at
  the slot 1, and the scalar \<open>(0, 0)\<close> of the slot 1 is 11 before and after the call, not
  16.
\<close>

theorem add_values_accumulates_counterexample:
  "valid_csr dup_mat \<and> dof_in_range 1 (nbrows dup_mat) 0 \<and> dof_in_range 1 (nbcols dup_mat) 0 \<and>
   rowp dup_mat ! 0 \<le> 1 \<and> 1 < rowp dup_mat ! 1 \<and> cols dup_mat ! 1 = 0 div 1 \<and>
   scalar_at 1 0 0 dup_mat = 11 \<and>
   map_option (scalar_at 1 0 0) (add_values 1 1 1 [0] 1 [0] example_local dup_mat) = Some 11"
  by (simp add: valid_dup_mat dof_in_range_def scalar_at_def dup_mat_simps example_local_def
      add_values_def add_values_row_def add_values_col_def for_loop.simps
      find_column_index_def find_column_scan.simps idx_get_def idx_div_def idx_mod_def
      vals_read_def vals_write_def vals_in_def MAX_INDEX_def)

text \<open>
  Claim C3, amended. Let \<open>A\<close> have a valid CSR pattern and let the row DOFs \<open>i[ii]\<close> of the
  call \<open>add_values(m, i, n, j, mat)\<close> decompose to in-range block rows; the column DOFs
  are arbitrary. Then the call returns, and each scalar \<open>vals(p, a, b)\<close> is afterwards its
  old value to which the values \<open>mat(ii, jj)\<close> of the pairs that address it have been
  added, in the order of the loops. A pair addresses a scalar if and only if its block
  is in the pattern, so the value of a pair whose block is absent is added nowhere. The
  matrix returned is the same for every local matrix that agrees with \<open>mat\<close> on the pairs
  whose block is in the pattern; and if the block of every pair is absent, the matrix is
  unchanged.
\<close>

theorem add_values_drops_absent:
  fixes A :: "('w::len, 'a::plus) BSRMat"
  assumes "valid_csr A" and "unat m \<le> length i" and "unat n \<le> length j"
    and "\<forall>ii < unat m. dof_in_range M (nbrows A) (i ! ii)" and "N \<noteq> 0"
  shows "\<exists>A'. add_values M N m i n j mat A = Some A' \<and>
     (\<forall>p a b. cell (vals A') p a b =
        foldl (+) (cell (vals A) p a b) (contributions M N A m i n j mat p a b)) \<and>
     (\<forall>di dj. block_present M N A di dj \<longleftrightarrow> (\<exists>p a b. hits M N A di dj p a b)) \<and>
     (\<forall>mat'. (\<forall>ii jj. ii < m \<and> jj < n \<and> block_present M N A (i ! unat ii) (j ! unat jj)
                 \<longrightarrow> mat' ii jj = mat ii jj)
        \<longrightarrow> add_values M N m i n j mat' A = Some A') \<and>
     ((\<forall>ii jj. ii < m \<and> jj < n \<longrightarrow> \<not> block_present M N A (i ! unat ii) (j ! unat jj))
        \<longrightarrow> A' = A)"
proof -
  have N: "n = 0 \<or> N \<noteq> 0" using assms(5) by simp
  note a = add_values_spec[OF assms(1-4) N]
  let ?A' = "set_cells A (\<lambda>p a b.
      foldl (+) (cell (vals A) p a b) (contributions M N A m i n j mat p a b))"
  have 0: "\<forall>p a b. cell (vals ?A') p a b =
      foldl (+) (cell (vals A) p a b) (contributions M N A m i n j mat p a b)"
    by simp
  have 1: "add_values M N m i n j mat' A = Some ?A'"
    if "\<forall>ii jj. ii < m \<and> jj < n \<and> block_present M N A (i ! unat ii) (j ! unat jj)
                 \<longrightarrow> mat' ii jj = mat ii jj" for mat'
    unfolding a using that by (simp add: contributions_cong[of m n M N A i j mat' mat])
  have 2: "?A' = A"
    if "\<forall>ii jj. ii < m \<and> jj < n \<longrightarrow> \<not> block_present M N A (i ! unat ii) (j ! unat jj)"
    using that by (simp add: contributions_absent[of m n M N A i j])
  have 3: "\<forall>di dj. block_present M N A di dj \<longleftrightarrow> (\<exists>p a b. hits M N A di dj p a b)"
    using block_present_hits[of M N A] by blast
  from a[of mat] 0 1 2 3 show ?thesis by blast
qed

theorem add_values_drops_absent_witness:
  "(\<exists>A'. add_values 2 2 1 [0] 2 [2, 0] mixed_local example_mat = Some A' \<and>
      \<not> block_present 2 2 example_mat 0 2 \<and> block_present 2 2 example_mat 0 0 \<and>
      mixed_local 0 0 = 100 \<and> mixed_local 0 1 = 5 \<and>
      cell (vals example_mat) 0 0 0 = 1 \<and> cell (vals A') 0 0 0 = 6 \<and>
      cell (vals A') 0 0 1 = 2 \<and> cell (vals A') 0 1 0 = 3 \<and> cell (vals A') 1 0 0 = 5 \<and>
      add_values 2 2 1 [0] 2 [2, 0] example_local example_mat = Some A') \<and>
   add_values 2 2 1 [0] 1 [2] example_local example_mat = Some example_mat"
proof -
  have h2: "unat (1 :: 32 word) \<le> length [0 :: 32 word]" by simp
  have h3: "unat (2 :: 32 word) \<le> length [2, 0 :: 32 word]" by simp
  have h3': "unat (1 :: 32 word) \<le> length [2 :: 32 word]" by simp
  have h4: "\<forall>ii < unat (1 :: 32 word). dof_in_range 2 (nbrows example_mat) ([0 :: 32 word] ! ii)"
    by (simp add: dof_in_range_def example_mat_simps)
  have h5: "(2 :: 32 word) \<noteq> 0" by simp
  have p02: "\<not> block_present 2 2 example_mat (0 :: 32 word) (2 :: 32 word)"
    and p00: "block_present 2 2 example_mat (0 :: 32 word) (0 :: 32 word)"
    by (simp_all add: block_present_def example_mat_simps)
  have agree: "\<forall>ii jj. ii < (1 :: 32 word) \<and> jj < (2 :: 32 word) \<and>
      block_present 2 2 example_mat ([0 :: 32 word] ! unat ii) ([2, 0 :: 32 word] ! unat jj)
        \<longrightarrow> example_local ii jj = mixed_local ii jj"
  proof (intro allI impI)
    fix ii jj :: "32 word"
    assume a: "ii < 1 \<and> jj < 2 \<and>
      block_present 2 2 example_mat ([0 :: 32 word] ! unat ii) ([2, 0 :: 32 word] ! unat jj)"
    then have ii: "ii = 0" by (simp add: word_less_1)
    from a have "jj = 0 \<or> jj = 1" by unat_arith
    then show "example_local ii jj = mixed_local ii jj"
      using a p02 by (auto simp: ii example_local_def mixed_local_def)
  qed
  have absent: "\<forall>ii jj. ii < (1 :: 32 word) \<and> jj < (1 :: 32 word) \<longrightarrow>
      \<not> block_present 2 2 example_mat ([0 :: 32 word] ! unat ii) ([2 :: 32 word] ! unat jj)"
    by (simp add: block_present_def example_mat_simps word_less_1)
  from add_values_drops_absent[OF valid_example_mat h2 h3 h4 h5, of mixed_local]
  obtain A' where A': "add_values 2 2 1 [0] 2 [2, 0] mixed_local example_mat = Some A'"
    and c: "\<forall>p a b. cell (vals A') p a b = foldl (+) (cell (vals example_mat) p a b)
            (contributions 2 2 example_mat 1 [0] 2 [2, 0] mixed_local p a b)"
    and e: "\<forall>mat'. (\<forall>ii jj. ii < (1 :: 32 word) \<and> jj < (2 :: 32 word) \<and>
          block_present 2 2 example_mat ([0 :: 32 word] ! unat ii) ([2, 0 :: 32 word] ! unat jj)
            \<longrightarrow> mat' ii jj = mixed_local ii jj)
        \<longrightarrow> add_values 2 2 1 [0] 2 [2, 0] mat' example_mat = Some A'"
    by blast
  have "cell (vals A') 0 0 0 = 6"
    using c[rule_format, of 0 0 0] by (simp add: mixed_local_contributions example_mat_simps)
  moreover have "cell (vals A') 0 0 1 = 2"
    using c[rule_format, of 0 0 1] by (simp add: mixed_local_contributions example_mat_simps)
  moreover have "cell (vals A') 0 1 0 = 3"
    using c[rule_format, of 0 1 0] by (simp add: mixed_local_contributions example_mat_simps)
  moreover have "cell (vals A') 1 0 0 = 5"
    using c[rule_format, of 1 0 0] by (simp add: mixed_local_contributions example_mat_simps)
  moreover have "add_values 2 2 1 [0] 2 [2, 0] example_local example_mat = Some A'"
    using e[rule_format, of example_local] agree by blast
  moreover have "mixed_local 0 0 = 100" "mixed_local 0 1 = 5" "cell (vals example_mat) 0 0 0 = 1"
    by (simp_all add: mixed_local_def example_mat_simps)
  moreover have "add_values 2 2 1 [0] 1 [2] example_local example_mat = Some example_mat"
    using add_values_drops_absent[OF valid_example_mat h2 h3' h4 h5, of example_local] absent
    by blast
  ultimately show ?thesis using A' p02 p00 by blast
qed

text \<open>
  The claim as stated fails for a row DOF beyond the matrix: its block is absent from
  the pattern, and the lookup reads \<open>rowp\<close> outside the array. Here the DOF 4 is in the
  block row 2 of a matrix with two block rows, and the read of \<open>rowp[3]\<close> is out of range.
\<close>

theorem add_values_drops_absent_counterexample:
  "valid_csr example_mat \<and> \<not> dof_in_range 2 (nbrows example_mat) 4 \<and>
   add_values 2 2 1 [4] 1 [0] example_local example_mat = None"
  by (simp add: valid_example_mat dof_in_range_def example_mat_simps
      add_values_def add_values_row_def add_values_col_def for_loop.simps
      find_column_index_def idx_get_def idx_div_def idx_mod_def)

section \<open>Export: \<open>to_dense\<close> and \<open>write_mtx\<close>\<close>

text \<open>
  Claim C5, amended. Let \<open>A\<close> have a valid, duplicate-free CSR pattern, and let \<open>M nbrows\<close>,
  \<open>N nbcols\<close> and their product be at most \<open>MAX_INDEX\<close>. Then \<open>to_dense\<close> returns
  \<open>m = M nbrows\<close>, \<open>n = N nbcols\<close> and a buffer of \<open>m n\<close> scalars in which, for every slot
  \<open>p\<close> of a block row \<open>r\<close> and every block offset \<open>(ii, jj)\<close>, the scalar at
  \<open>n (M r + ii) + (N cols[p] + jj)\<close> is \<open>vals(p, ii, jj)\<close>, and every scalar at a position of
  no stored scalar is 0.
\<close>

theorem to_dense_correct:
  fixes A :: "('w::len, 'a::zero) BSRMat"
  assumes "valid_csr A" and "duplicate_free A" and "dense_fits M N A"
  shows "\<exists>buf. to_dense M N A = Some (M * nbrows A, N * nbcols A, buf) \<and>
     unat (M * nbrows A) = unat M * unat (nbrows A) \<and>
     unat (N * nbcols A) = unat N * unat (nbcols A) \<and>
     length buf = unat (M * nbrows A) * unat (N * nbcols A) \<and>
     (\<forall>r p ii jj. r < unat (nbrows A) \<and> unat (rowp A ! r) \<le> p \<and> p < unat (rowp A ! Suc r) \<and>
          ii < unat M \<and> jj < unat N \<longrightarrow>
        buf ! (unat (N * nbcols A) * (unat M * r + ii) + (unat N * unat (cols A ! p) + jj)) =
          cell (vals A) p ii jj) \<and>
     (\<forall>q < length buf.
        (\<forall>r p ii jj. r < unat (nbrows A) \<and> unat (rowp A ! r) \<le> p \<and> p < unat (rowp A ! Suc r) \<and>
            ii < unat M \<and> jj < unat N \<longrightarrow>
          q \<noteq> unat (N * nbcols A) * (unat M * r + ii) + (unat N * unat (cols A ! p) + jj))
        \<longrightarrow> buf ! q = 0)"
proof -
  note dm = dense_dims[OF assms(3)]
  from to_dense_spec[OF assms] obtain buf where
    run: "to_dense M N A = Some (M * nbrows A, N * nbcols A, buf)" and
    inv: "dense_inv M N A {(r, p, ii, jj). covered M N A r p ii jj} buf" by blast
  from inv have len: "length buf = unat (M * nbrows A) * unat (N * nbcols A)"
    by (simp add: dense_inv_def dm)
  from inv have 1: "buf ! dense_index M N A r p ii jj = cell (vals A) p ii jj"
    if "covered M N A r p ii jj" for r p ii jj
    using that by (simp add: dense_inv_def)
  from inv have 2: "buf ! q = 0"
    if "q < length buf" "\<forall>r p ii jj. covered M N A r p ii jj \<longrightarrow> q \<noteq> dense_index M N A r p ii jj"
    for q using that by (simp add: dense_inv_def)
  show ?thesis
    using run len dm(1,2) 1 2
    unfolding covered_def dense_index_def dm(2)
    by (intro exI[of _ buf] conjI) simp_all
qed

theorem to_dense_correct_witness:
  "\<exists>buf. to_dense 2 2 example_mat = Some (4, 4, buf) \<and> length buf = 16 \<and>
     buf ! 0 = 1 \<and> buf ! 5 = 4 \<and> buf ! 10 = 5"
proof -
  from to_dense_correct[OF valid_example_mat duplicate_free_example_mat dense_fits_example_mat]
  obtain buf where
    run: "to_dense 2 2 example_mat = Some (2 * nbrows example_mat, 2 * nbcols example_mat, buf)" and
    len: "length buf = unat (2 * nbrows example_mat) * unat (2 * nbcols example_mat)" and
    c: "\<forall>r p ii jj. r < unat (nbrows example_mat) \<and> unat (rowp example_mat ! r) \<le> p \<and>
          p < unat (rowp example_mat ! Suc r) \<and> ii < unat (2 :: 32 word) \<and> jj < unat (2 :: 32 word) \<longrightarrow>
        buf ! (unat (2 * nbcols example_mat) * (unat (2 :: 32 word) * r + ii) +
               (unat (2 :: 32 word) * unat (cols example_mat ! p) + jj)) =
          cell (vals example_mat) p ii jj"
    by blast
  have "buf ! 0 = 1" using c[rule_format, of 0 0 0 0] by (simp add: example_mat_simps)
  moreover have "buf ! 5 = 4" using c[rule_format, of 0 0 1 1] by (simp add: example_mat_simps)
  moreover have "buf ! 10 = 5" using c[rule_format, of 1 1 0 0] by (simp add: example_mat_simps)
  ultimately show ?thesis using run len by (simp add: example_mat_simps)
qed

text \<open>
  The claim as stated fails where the number \<open>m n\<close> of dense scalars exceeds \<open>MAX_INDEX\<close>:
  for 32-bit indices and \<open>65536 \<times> 65536\<close> blocks of one scalar, \<open>size = m * n\<close> wraps around
  to 0, the buffer is allocated with no scalars, and the first copy writes outside it.
\<close>

theorem to_dense_correct_counterexample:
  "valid_csr wide_mat \<and> duplicate_free wide_mat \<and> to_dense 1 1 wide_mat = None"
  by (simp add: valid_wide_mat duplicate_free_wide_mat to_dense_wide_mat)

text \<open>
  Claim C6, amended. Let \<open>A\<close> have a valid, duplicate-free CSR pattern, let \<open>M nbrows\<close>,
  \<open>N nbcols\<close> and their product be at most \<open>MAX_INDEX\<close>, let \<open>M nbrows\<close>, \<open>N nbcols\<close> and
  \<open>nnz M N\<close> be at most \<open>INT_MAX = 2^31 - 1\<close>, and let the file be opened. Then the file
  written by \<open>write_mtx\<close> is the MatrixMarket header, the size line
  \<open>(M nbrows, N nbcols, nnz M N)\<close>, with the numbers as they are, and \<open>nnz M N\<close> entry
  lines, one for each stored scalar in pattern order and with 1-based coordinates.
  \<open>to_dense\<close> returns a buffer such that every entry line \<open>(r, c, v)\<close> has \<open>1 \<le> r \<le> m\<close>,
  \<open>1 \<le> c \<le> n\<close> and \<open>v\<close> equal to the dense scalar in row \<open>r - 1\<close> and column \<open>c - 1\<close>, and
  such that the dense scalar at every position listed on no entry line is 0.
\<close>

theorem write_mtx_matches_to_dense:
  fixes A :: "('w::len, 'a::zero) BSRMat"
  assumes "valid_csr A" and "duplicate_free A" and "dense_fits M N A" and "mtx_fits M N A"
  shows "\<exists>buf.
     write_mtx M N True A =
       Some (Header ''%%MatrixMarket matrix coordinate real general'' #
             Size_line (int (unat M * unat (nbrows A))) (int (unat N * unat (nbcols A)))
               (int (unat (nnz A) * unat M * unat N)) #
             mtx_entries M N A) \<and>
     length (mtx_entries M N A) = unat (nnz A) * unat M * unat N \<and>
     (\<forall>e \<in> set (mtx_entries M N A). \<exists>r c v. e = Entry_line r c v) \<and>
     (\<forall>i jp ii jj. i < nbrows A \<and> rowp A ! unat i \<le> jp \<and> jp < rowp A ! unat (i + 1) \<and>
        ii < M \<and> jj < N \<longrightarrow>
        mtx_entry M N A i jp ii jj =
          Entry_line (int (unat M * unat i + unat ii + 1))
            (int (unat N * unat (cols A ! unat jp) + unat jj + 1))
            (cell (vals A) (unat jp) (unat ii) (unat jj))) \<and>
     to_dense M N A = Some (M * nbrows A, N * nbcols A, buf) \<and>
     unat (M * nbrows A) = unat M * unat (nbrows A) \<and>
     unat (N * nbcols A) = unat N * unat (nbcols A) \<and>
     (\<forall>r c v. Entry_line r c v \<in> set (mtx_entries M N A) \<longrightarrow>
        1 \<le> r \<and> r \<le> int (unat (M * nbrows A)) \<and> 1 \<le> c \<and> c \<le> int (unat (N * nbcols A)) \<and>
        v = buf ! (unat (N * nbcols A) * nat (r - 1) + nat (c - 1))) \<and>
     (\<forall>x y. x < unat (M * nbrows A) \<and> y < unat (N * nbcols A) \<and>
        (\<forall>r c v. Entry_line r c v \<in> set (mtx_entries M N A) \<longrightarrow>
           \<not> (r = int (Suc x) \<and> c = int (Suc y)))
        \<longrightarrow> buf ! (unat (N * nbcols A) * x + y) = 0)"
proof -
  note v = assms(1) and d = assms(2) and f = assms(3) and g = assms(4)
  note dm = dense_dims[OF f] and sz = mtx_size_printed[OF v d f g]
  note pr = mtx_entry_printed[OF v f g]
  from to_dense_spec[OF v d f] obtain buf where
    run: "to_dense M N A = Some (M * nbrows A, N * nbcols A, buf)" and
    inv: "dense_inv M N A {(r, p, ii, jj). covered M N A r p ii jj} buf" by blast
  have ent: "\<exists>r c v. e = Entry_line r c v" if "e \<in> set (mtx_entries M N A)" for e
    using that unfolding mtx_entries_set mtx_entry_def by blast
  have prs: "mtx_entry M N A i jp ii jj =
          Entry_line (int (unat M * unat i + unat ii + 1))
            (int (unat N * unat (cols A ! unat jp) + unat jj + 1))
            (cell (vals A) (unat jp) (unat ii) (unat jj))"
    if "i < nbrows A \<and> rowp A ! unat i \<le> jp \<and> jp < rowp A ! unat (i + 1) \<and> ii < M \<and> jj < N"
    for i jp ii jj
    using that pr[of i jp ii jj] by simp
  have a: "1 \<le> r \<and> r \<le> int (unat (M * nbrows A)) \<and> 1 \<le> c \<and> c \<le> int (unat (N * nbcols A)) \<and>
        v = buf ! (unat (N * nbcols A) * nat (r - 1) + nat (c - 1))"
    if "Entry_line r c v \<in> set (mtx_entries M N A)" for r c v
  proof -
    from that obtain i jp ii jj where w: "i < nbrows A" "rowp A ! unat i \<le> jp"
      "jp < rowp A ! unat (i + 1)" "ii < M" "jj < N"
      and e: "Entry_line r c v = mtx_entry M N A i jp ii jj"
      unfolding mtx_entries_set by blast
    note c = words_covered[OF w]
    note b = dense_index_bounds[OF v c]
    from e have r: "r = int (Suc (unat M * unat i + unat ii))"
      and c': "c = int (Suc (unat N * unat (cols A ! unat jp) + unat jj))"
      and v': "v = cell (vals A) (unat jp) (unat ii) (unat jj)"
      unfolding pr[OF w] by simp_all
    have rr: "1 \<le> r \<and> r \<le> int (unat (M * nbrows A)) \<and> nat (r - 1) = unat M * unat i + unat ii"
      unfolding dm(1) by (rule coordinate_bounds[OF b(1) r])
    have cc: "1 \<le> c \<and> c \<le> int (unat (N * nbcols A)) \<and>
        nat (c - 1) = unat N * unat (cols A ! unat jp) + unat jj"
      unfolding dm(2) by (rule coordinate_bounds[OF b(2) c'])
    have "buf ! dense_index M N A (unat i) (unat jp) (unat ii) (unat jj) = v"
      using inv c v' by (simp add: dense_inv_def)
    then have "v = buf ! (unat (N * nbcols A) * nat (r - 1) + nat (c - 1))"
      by (simp only: rr cc dm(2) dense_index_def)
    with rr cc show ?thesis by blast
  qed
  have z: "buf ! (unat (N * nbcols A) * x + y) = 0"
    if xy: "x < unat (M * nbrows A)" "y < unat (N * nbcols A)"
      and nl: "\<forall>r c v. Entry_line r c v \<in> set (mtx_entries M N A) \<longrightarrow>
                \<not> (r = int (Suc x) \<and> c = int (Suc y))" for x y
  proof -
    let ?q = "unat (N * nbcols A) * x + y"
    have "?q < unat (N * nbcols A) * unat (M * nbrows A)" using xy by (intro block_offset_less)
    then have q: "?q < length buf" using inv by (simp add: dense_inv_def dm mult.commute)
    have "?q \<noteq> dense_index M N A r p ii jj" if c: "covered M N A r p ii jj" for r p ii jj
    proof
      assume eq: "?q = dense_index M N A r p ii jj"
      note b = dense_index_bounds[OF v c]
      from block_offset_inj[OF xy(2)[unfolded dm] b(2) eq[unfolded dense_index_def dm]]
      have x: "x = unat M * r + ii" and y: "y = unat N * unat (cols A ! p) + jj" by simp_all
      from covered_words[OF v c] obtain i jp wi wj :: "'w word" where
        u: "unat i = r" "unat jp = p" "unat wi = ii" "unat wj = jj" and
        w: "i < nbrows A" "rowp A ! unat i \<le> jp" "jp < rowp A ! unat (i + 1)" "wi < M" "wj < N"
        by blast
      have "mtx_entry M N A i jp wi wj \<in> set (mtx_entries M N A)"
        unfolding mtx_entries_set using w by blast
      then have "\<not> (int (Suc (unat M * unat i + unat wi)) = int (Suc x) \<and>
          int (Suc (unat N * unat (cols A ! unat jp) + unat wj)) = int (Suc y))"
        using nl unfolding pr[OF w] by blast
      then show False by (simp add: u x y)
    qed
    then show ?thesis using inv q by (simp add: dense_inv_def)
  qed
  from write_mtx_spec[OF v, of M N] have wr: "write_mtx M N True A =
       Some (Header ''%%MatrixMarket matrix coordinate real general'' #
             Size_line (int (unat M * unat (nbrows A))) (int (unat N * unat (nbcols A)))
               (int (unat (nnz A) * unat M * unat N)) #
             mtx_entries M N A)"
    by (simp only: sz append_Cons append_Nil)
  show ?thesis
    using wr length_mtx_entries[OF v, of M N] ent prs run dm(1,2) a z
    by (intro exI[of _ buf] conjI) blast+
qed

theorem write_mtx_matches_to_dense_witness:
  "\<exists>es. write_mtx 2 2 True example_mat =
       Some (Header ''%%MatrixMarket matrix coordinate real general'' # Size_line 4 4 8 # es) \<and>
     length es = 8 \<and> es ! 0 = Entry_line 1 1 1 \<and> es ! 7 = Entry_line 4 4 8"
proof -
  have w0: "(0 :: 32 word) < nbrows example_mat \<and>
      rowp example_mat ! unat (0 :: 32 word) \<le> (0 :: 32 word) \<and>
      (0 :: 32 word) < rowp example_mat ! unat ((0 :: 32 word) + 1) \<and>
      (0 :: 32 word) < 2 \<and> (0 :: 32 word) < 2"
    by (simp add: example_mat_simps)
  have w7: "(1 :: 32 word) < nbrows example_mat \<and>
      rowp example_mat ! unat (1 :: 32 word) \<le> (1 :: 32 word) \<and>
      (1 :: 32 word) < rowp example_mat ! unat ((1 :: 32 word) + 1) \<and>
      (1 :: 32 word) < 2 \<and> (1 :: 32 word) < 2"
    by (simp add: example_mat_simps)
  from write_mtx_matches_to_dense[OF valid_example_mat duplicate_free_example_mat
      dense_fits_example_mat mtx_fits_example_mat]
  have "write_mtx 2 2 True example_mat =
       Some (Header ''%%MatrixMarket matrix coordinate real general'' #
             Size_line (int (unat (2 :: 32 word) * unat (nbrows example_mat)))
               (int (unat (2 :: 32 word) * unat (nbcols example_mat)))
               (int (unat (nnz example_mat) * unat (2 :: 32 word) * unat (2 :: 32 word))) #
             mtx_entries 2 2 example_mat)"
    and "length (mtx_entries 2 2 example_mat) =
      unat (nnz example_mat) * unat (2 :: 32 word) * unat (2 :: 32 word)"
    and e: "\<forall>i jp ii jj. i < nbrows example_mat \<and> rowp example_mat ! unat i \<le> jp \<and>
        jp < rowp example_mat ! unat (i + 1) \<and> ii < 2 \<and> jj < 2 \<longrightarrow>
        mtx_entry 2 2 example_mat i jp ii jj =
          Entry_line (int (unat (2 :: 32 word) * unat i + unat ii + 1))
            (int (unat (2 :: 32 word) * unat (cols example_mat ! unat jp) + unat jj + 1))
            (cell (vals example_mat) (unat jp) (unat ii) (unat jj))"
    by blast+
  moreover have "mtx_entries 2 2 example_mat ! 0 = mtx_entry 2 2 example_mat 0 0 0 0"
    "mtx_entries 2 2 example_mat ! 7 = mtx_entry 2 2 example_mat 1 1 1 1"
    by (simp_all add: mtx_entries_example_mat)
  moreover have "mtx_entry 2 2 example_mat 0 0 0 0 = Entry_line 1 1 1"
    using e[rule_format, OF w0] by (simp add: example_mat_simps)
  moreover have "mtx_entry 2 2 example_mat 1 1 1 1 = Entry_line 4 4 8"
    using e[rule_format, OF w7] by (simp add: example_mat_simps)
  ultimately show ?thesis by (simp add: example_mat_simps)
qed

text \<open>
  The claim as stated fails in three ways. Where the number of dense scalars exceeds
  \<open>MAX_INDEX\<close> (32-bit indices, \<open>65536 \<times> 65536\<close> blocks, \<open>M = N = 2\<close>), \<open>to_dense\<close>, whose
  size wraps around to 0, writes outside its buffer, so there is no dense matrix to
  compare the lines with. Where a number of the size line exceeds \<open>INT_MAX\<close> (one block
  row, \<open>2^31\<close> block columns, no block, \<open>M = N = 1\<close>), \<open>%d\<close> prints it negative: the size
  line is \<open>1 -2147483648 0\<close>, not \<open>(M nbrows, N nbcols, nnz M N)\<close>. Where the file cannot be
  opened, no file is written, and \<open>fprintf\<close> is called on a null pointer.
\<close>

theorem write_mtx_matches_to_dense_counterexample:
  "valid_csr wide_mat \<and> duplicate_free wide_mat \<and> to_dense 2 2 wide_mat = None \<and>
   valid_csr long_mat \<and> duplicate_free long_mat \<and>
   unat (1 :: 32 word) * unat (nbcols long_mat) = 2147483648 \<and>
   write_mtx 1 1 True long_mat =
     Some [Header ''%%MatrixMarket matrix coordinate real general'',
           Size_line 1 (- 2147483648) 0] \<and>
   valid_csr example_mat \<and> duplicate_free example_mat \<and>
   write_mtx 2 2 False example_mat = None"
  by (simp add: valid_wide_mat duplicate_free_wide_mat to_dense_wide_mat
      valid_long_mat duplicate_free_long_mat write_mtx_long_mat long_mat_simps
      valid_example_mat duplicate_free_example_mat write_mtx_not_opened)

end
